theory Spec2Isabelle
  imports Main "HOL-Library.Word"
begin

unbundle bit_operations_syntax

section \<open>Machine types\<close>

type_synonym u8 = "8 word"
type_synonym u16 = "16 word"
type_synonym u32 = "32 word"

section \<open>Frame length and on-wire bit counts (main.c, dlc_to_len / can_frame_bits)\<close>

definition dlc_to_len_map :: "u8 list" where
  "dlc_to_len_map = [0, 1, 2, 3, 4, 5, 6, 7, 8, 12, 16, 20, 24, 32, 48, 64]"

definition dlc_to_len :: "u8 \<Rightarrow> u8" where
  "dlc_to_len dlc = dlc_to_len_map ! unat (dlc AND 0xf)"

text \<open>
  The local \<open>crc_bits\<close> of \<open>can_frame_bits\<close>:
  \<^verbatim>\<open>uint32_t crc_bits = dlc <= 10 ? (17+4+5) : (21+4+6);\<close>
\<close>

definition crc_bits :: "u8 \<Rightarrow> u32" where
  "crc_bits dlc = (if dlc \<le> 10 then (17 + 4 + 5) else (21 + 4 + 6))"

text \<open>
  \<open>can_frame_bits\<close> writes its two results through pointers; the model returns the pair
  \<open>(nmbr_bits, dtbr_bits)\<close>. The flag arguments are \<open>uint32_t\<close> values tested for
  being nonzero, \<open>(!rtr)\<close> is 1 exactly when \<open>rtr\<close> is 0.
\<close>

definition can_frame_bits :: "u32 \<Rightarrow> u32 \<Rightarrow> u32 \<Rightarrow> u32 \<Rightarrow> u8 \<Rightarrow> u32 \<times> u32" where
  "can_frame_bits xtd rtr fdf brs dlc =
     (let payload_bits = (ucast (dlc_to_len dlc) :: u32) * 8 in
      if fdf \<noteq> 0 then
        (if brs \<noteq> 0 then
           (let dtbr_bits = 1 + 4 + payload_bits + crc_bits dlc in
            if xtd \<noteq> 0 then
              (1 + 11 + 1 + 1 + 18 + 1 + 1 + 1 + 1 + 1 + 1 + 1 + 7 + 2, dtbr_bits)
            else
              (1 + 11 + 1 + 1 + 1 + 1 + 1 + 1 + 1 + 1 + 7 + 2, dtbr_bits))
         else
           (if xtd \<noteq> 0 then
              (1 + 11 + 1 + 1 + 18 + 1 + 1 + 1 + 1 + 1 + 4 + payload_bits + crc_bits dlc
                 + 1 + 1 + 1 + 7 + 2, 0)
            else
              (1 + 11 + 1 + 1 + 1 + 1 + 1 + 1 + 4 + payload_bits + crc_bits dlc
                 + 1 + 1 + 1 + 7 + 2, 0)))
      else
        (if xtd \<noteq> 0 then
           (1 + 11 + 1 + 1 + 18 + 1 + 2 + 4 + (if rtr = 0 then 1 else 0) * payload_bits
              + 15 + 1 + 1 + 1 + 7 + 2, 0)
         else
           (1 + 11 + 1 + 1 + 1 + 4 + (if rtr = 0 then 1 else 0) * payload_bits
              + 15 + 1 + 1 + 1 + 7 + 2, 0)))"

section \<open>Driver-side records (struct can and the elements of its rings)\<close>

text \<open>
  The bit fields of a hardware RX FIFO element that the bridge reads (\<open>R0.bit.ID\<close>,
  \<open>R0.bit.XTD\<close>, \<open>R0.bit.RTR\<close>, \<open>R1.bit.DLC\<close>, \<open>R1.bit.FDF\<close>,
  \<open>R1.bit.BRS\<close>) and its payload array, indexed by byte position.
\<close>

record can_rxf0e_0 =
  R0_ID :: u32
  R0_RTR :: bool
  R0_XTD :: bool

record can_rxf0e_1 =
  R1_DLC :: u8
  R1_BRS :: bool
  R1_FDF :: bool

record can_rx_fifo_element =
  R0 :: can_rxf0e_0
  R1 :: can_rxf0e_1
  data :: "nat \<Rightarrow> u8"

text \<open>An element of \<open>can->rx_frames\<close>: the copied registers, the reconstructed
  timestamp and the payload.\<close>

record rx_frame =
  f_R0 :: can_rxf0e_0
  f_R1 :: can_rxf0e_1
  f_ts :: u32
  f_data :: "nat \<Rightarrow> u8"

text \<open>TX event FIFO bit fields (\<open>T0.bit.XTD/RTR/ESI\<close>, \<open>T1.bit.FDF/BRS/DLC/MM\<close>)
  and an element of \<open>can->tx_frames\<close>.\<close>

record can_txefe_0 =
  T0_ESI :: bool
  T0_XTD :: bool
  T0_RTR :: bool

record can_txefe_1 =
  T1_DLC :: u8
  T1_BRS :: bool
  T1_FDF :: bool
  T1_MM :: u8

record tx_frame =
  t_T0 :: can_txefe_0
  t_T1 :: can_txefe_1
  t_ts :: u32

text \<open>An element of \<open>can->status_fifo\<close>.\<close>

record can_status =
  s_type :: u8
  s_payload :: u8
  s_ts :: u32
  s_tx :: bool
  s_data_part :: bool

text \<open>
  \<open>struct can\<close> is declared outside the given sources; these are the fields that the
  functions of main.c read and write, with the widths of the locals they are loaded into
  (\<open>uint8_t rx_put_index\<close>, \<open>uint16_t status_put_index\<close>, \<open>uint16_t rx_lost\<close>,
  \<open>uint16_t tx_dropped\<close>). The ring arrays are indexed by slot number.
\<close>

record can =
  enabled :: bool
  features :: u16
  tx_available :: u8
  tx_dropped :: u16
  desync :: bool
  rx_lost :: u16
  int_comm_flags :: u8
  rx_put_index :: u8
  rx_get_index :: u8
  tx_put_index :: u8
  tx_get_index :: u8
  status_put_index :: u16
  status_get_index :: u16
  rx_frames :: "nat \<Rightarrow> rx_frame"
  tx_frames :: "nat \<Rightarrow> tx_frame"
  status_fifo :: "nat \<Rightarrow> can_status"
  nm_us_per_bit :: u32
  dt_us_per_bit_factor_shift8 :: u32

text \<open>A failed \<open>SC_ASSERT\<close> stops the firmware; the model returns it as a value.\<close>

datatype halt = Assert_failed

section \<open>Frame duration (can_frame_time_us)\<close>

text \<open>The arithmetic is 32-bit unsigned and wraps.\<close>

definition can_frame_time_us :: "can \<Rightarrow> u32 \<Rightarrow> u32 \<Rightarrow> u32" where
  "can_frame_time_us can nm dt =
     nm_us_per_bit can * nm + drop_bit 8 (dt_us_per_bit_factor_shift8 can * dt)"

section \<open>can_poll, RX part: timestamp reconstruction\<close>

definition CLOCK_MAX :: u32 where
  "CLOCK_MAX = 0xffffffff"

text \<open>The duration that the reverse loop subtracts for one FIFO element.\<close>

definition rx_element_time_us :: "can \<Rightarrow> can_rx_fifo_element \<Rightarrow> u32" where
  "rx_element_time_us can e =
     (case can_frame_bits (of_bool (R0_XTD (R0 e))) (of_bool (R0_RTR (R0 e)))
             (of_bool (R1_FDF (R1 e))) (of_bool (R1_BRS (R1 e))) (R1_DLC (R1 e)) of
        (nmbr_bits, dtbr_bits) \<Rightarrow> can_frame_time_us can nmbr_bits dtbr_bits)"

text \<open>
  The reverse loop of \<open>can_poll\<close> (RX part):
  \<^verbatim>\<open>
  uint32_t ts = tsc;
  for (uint8_t i = 0, gio = F0GI; i < count; ++i) {
      get_index = (gio + count - 1 - i) & (CAN_RX_FIFO_SIZE-1);
      tsv[get_index] = ts & CLOCK_MAX;
      can_frame_bits(..., &nmbr_bits, &dtbr_bits);
      ts -= can_frame_time_us(index, nmbr_bits, dtbr_bits);
  }\<close>
  \<open>fifo_size\<close> is \<open>CAN_RX_FIFO_SIZE\<close> (a macro defined outside the given sources),
  \<open>tsv\<close> the local array, which the code does not initialise.
\<close>

function rx_ts_loop ::
  "nat \<Rightarrow> can \<Rightarrow> (nat \<Rightarrow> can_rx_fifo_element) \<Rightarrow> nat \<Rightarrow> nat \<Rightarrow> nat \<Rightarrow> u32
     \<Rightarrow> (nat \<Rightarrow> u32) \<Rightarrow> (nat \<Rightarrow> u32)" where
  "rx_ts_loop fifo_size can rx_fifo gio count i ts tsv =
     (if i < count then
        (let get_index = (gio + count - 1 - i) AND (fifo_size - 1);
             tsv' = tsv(get_index := ts AND CLOCK_MAX)
         in rx_ts_loop fifo_size can rx_fifo gio count (i + 1)
              (ts - rx_element_time_us can (rx_fifo get_index)) tsv')
      else tsv)"
  by pat_completeness auto
termination
  by (relation "measure (\<lambda>(fifo_size, can, rx_fifo, gio, count, i, ts, tsv). count - i)") auto

definition rx_timestamps ::
  "nat \<Rightarrow> can \<Rightarrow> (nat \<Rightarrow> can_rx_fifo_element) \<Rightarrow> nat \<Rightarrow> nat \<Rightarrow> u32
     \<Rightarrow> (nat \<Rightarrow> u32) \<Rightarrow> (nat \<Rightarrow> u32)" where
  "rx_timestamps fifo_size can rx_fifo gio count tsc tsv =
     rx_ts_loop fifo_size can rx_fifo gio count 0 tsc tsv"

text \<open>The FIFO slot of the \<open>j\<close>-th frame of the batch in arrival order (the forward
  loop's \<open>(gio + i) & (CAN_RX_FIFO_SIZE-1)\<close>).\<close>

definition rx_slot :: "nat \<Rightarrow> nat \<Rightarrow> nat \<Rightarrow> nat" where
  "rx_slot fifo_size gio j = (gio + j) AND (fifo_size - 1)"

section \<open>can_poll, RX part: storing the batch into the RX ring\<close>

text \<open>
  Modelled from the spec: \<open>can_inc_sat_rx_lost\<close> is called by \<open>can_poll\<close> but defined
  outside the given sources. The spec (4.3): on overflow the producer increments a
  saturating lost counter. The counter is the 16-bit \<open>rx_lost\<close>.
\<close>

definition can_inc_sat_rx_lost :: "can \<Rightarrow> can" where
  "can_inc_sat_rx_lost can =
     (if rx_lost can = 0xffff then can else can\<lparr>rx_lost := rx_lost can + 1\<rparr>)"

definition memcpy :: "(nat \<Rightarrow> u8) \<Rightarrow> (nat \<Rightarrow> u8) \<Rightarrow> nat \<Rightarrow> (nat \<Rightarrow> u8)" where
  "memcpy dst src n = (\<lambda>k. if k < n then src k else dst k)"

text \<open>
  What the else-branch of the forward loop leaves in \<open>rx_frames[put_index]\<close>: the two
  registers and the timestamp are assigned, the payload is copied over the first
  \<open>dlc_to_len\<close> bytes only when the frame is not RTR and the length is not zero.
\<close>

definition rx_frame_store :: "rx_frame \<Rightarrow> can_rx_fifo_element \<Rightarrow> u32 \<Rightarrow> rx_frame" where
  "rx_frame_store old e ts =
     (let f = old\<lparr>f_R0 := R0 e, f_R1 := R1 e, f_ts := ts\<rparr> in
      if \<not> R0_RTR (f_R0 f) then
        (let can_frame_len = dlc_to_len (R1_DLC (f_R1 f)) in
         if can_frame_len \<noteq> 0 then f\<lparr>f_data := memcpy (f_data f) (data e) (unat can_frame_len)\<rparr>
         else f)
      else f)"

text \<open>
  One iteration of the forward loop, on the local put index \<open>pi\<close>, the event counter and
  the channel state:
  \<^verbatim>\<open>
  uint8_t rx_get_index = __atomic_load_n(&can->rx_get_index, __ATOMIC_ACQUIRE);
  uint8_t used = pi - rx_get_index;
  SC_ASSERT(used <= CAN_RX_FIFO_SIZE);
  if (unlikely(used == CAN_RX_FIFO_SIZE)) {
      can_inc_sat_rx_lost(index);
  } else {
      uint8_t put_index = pi & (CAN_RX_FIFO_SIZE-1);
      ... store ...
      ++pi;
      ++*events;
  }\<close>
\<close>

definition rx_store_step ::
  "nat \<Rightarrow> can_rx_fifo_element \<Rightarrow> u32 \<Rightarrow> u8 \<times> u32 \<times> can \<Rightarrow> halt + (u8 \<times> u32 \<times> can)" where
  "rx_store_step fifo_size e ts st =
     (case st of (pi, events, can) \<Rightarrow>
        (let used = pi - rx_get_index can in
         if \<not> unat used \<le> fifo_size then Inl Assert_failed
         else if unat used = fifo_size then Inr (pi, events, can_inc_sat_rx_lost can)
         else
           (let put_index = unat pi AND (fifo_size - 1) in
            Inr (pi + 1, events + 1,
                 can\<lparr>rx_frames := (rx_frames can)
                        (put_index := rx_frame_store (rx_frames can put_index) e ts)\<rparr>))))"

function rx_store_loop ::
  "nat \<Rightarrow> (nat \<Rightarrow> can_rx_fifo_element) \<Rightarrow> (nat \<Rightarrow> u32) \<Rightarrow> nat \<Rightarrow> nat \<Rightarrow> nat
     \<Rightarrow> u8 \<times> u32 \<times> can \<Rightarrow> halt + (u8 \<times> u32 \<times> can)" where
  "rx_store_loop fifo_size rx_fifo tsv gio count i st =
     (if i < count then
        (let get_index = (gio + i) AND (fifo_size - 1) in
         case rx_store_step fifo_size (rx_fifo get_index) (tsv get_index) st of
           Inl h \<Rightarrow> Inl h
         | Inr st' \<Rightarrow> rx_store_loop fifo_size rx_fifo tsv gio count (i + 1) st')
      else Inr st)"
  by pat_completeness auto
termination
  by (relation "measure (\<lambda>(fifo_size, rx_fifo, tsv, gio, count, i, st). count - i)") auto

text \<open>
  The hardware state that one call of \<open>can_poll\<close> reads for the RX FIFO: the element
  array, the fill level \<open>RXF0S.bit.F0FL\<close> and the get index \<open>RXF0S.bit.F0GI\<close>; with
  it the batch time \<open>tsc\<close> and the initial contents of the local \<open>tsv\<close>.
\<close>

record rx_poll =
  hw_rx_fifo :: "nat \<Rightarrow> can_rx_fifo_element"
  RXF0S_F0FL :: nat
  RXF0S_F0GI :: nat
  poll_tsc :: u32
  poll_tsv :: "nat \<Rightarrow> u32"

text \<open>
  The RX part of \<open>can_poll\<close>: \<open>if (count) { more = true; reverse loop; pi =
  can->rx_put_index; forward loop; acknowledge; can->rx_put_index = pi; }\<close>. The result
  is \<open>more\<close>, the event counter and the channel state.
\<close>

definition can_poll_rx :: "nat \<Rightarrow> rx_poll \<Rightarrow> u32 \<times> can \<Rightarrow> halt + (bool \<times> u32 \<times> can)" where
  "can_poll_rx fifo_size p st =
     (case st of (events, can) \<Rightarrow>
        (let count = RXF0S_F0FL p in
         if count \<noteq> 0 then
           (let tsv = rx_timestamps fifo_size can (hw_rx_fifo p) (RXF0S_F0GI p) count (poll_tsc p) (poll_tsv p) in
            case rx_store_loop fifo_size (hw_rx_fifo p) tsv (RXF0S_F0GI p) count 0
                   (rx_put_index can, events, can) of
              Inl h \<Rightarrow> Inl h
            | Inr (pi, events', can') \<Rightarrow> Inr (True, events', can'\<lparr>rx_put_index := pi\<rparr>))
         else Inr (False, events, can)))"

text \<open>A run of polls with no consumer step in between.\<close>

fun can_poll_rx_all :: "nat \<Rightarrow> rx_poll list \<Rightarrow> u32 \<times> can \<Rightarrow> halt + (u32 \<times> can)" where
  "can_poll_rx_all fifo_size [] st = Inr st"
| "can_poll_rx_all fifo_size (p # ps) st =
     (case can_poll_rx fifo_size p st of
        Inl h \<Rightarrow> Inl h
      | Inr (more_flag, events', can') \<Rightarrow> can_poll_rx_all fifo_size ps (events', can'))"

text \<open>
  What the consumer finds in the ring: the slots from \<open>rx_get_index\<close> up to
  \<open>rx_put_index\<close>, in the order in which \<open>can_usb_task\<close> reads them
  (\<open>rx_frames[rx_get_index & (CAN_RX_FIFO_SIZE-1)]\<close>, then \<open>rx_get_index+1\<close>).
\<close>

definition rx_used :: "can \<Rightarrow> nat" where
  "rx_used can = unat (rx_put_index can - rx_get_index can)"

definition rx_ring_pos :: "nat \<Rightarrow> can \<Rightarrow> nat \<Rightarrow> nat" where
  "rx_ring_pos fifo_size can j = unat (rx_get_index can + of_nat j) AND (fifo_size - 1)"

definition rx_ring_contents :: "nat \<Rightarrow> can \<Rightarrow> rx_frame list" where
  "rx_ring_contents fifo_size can =
     map (\<lambda>j. rx_frames can (rx_ring_pos fifo_size can j)) [0..<rx_used can]"

text \<open>The part of a stored frame that the store defines: the registers, the timestamp
  and the payload bytes of a frame that is not RTR.\<close>

definition rx_frame_view :: "rx_frame \<Rightarrow> can_rxf0e_0 \<times> can_rxf0e_1 \<times> u32 \<times> u8 list" where
  "rx_frame_view f =
     (f_R0 f, f_R1 f, f_ts f,
      if R0_RTR (f_R0 f) then [] else map (f_data f) [0..<unat (dlc_to_len (R1_DLC (f_R1 f)))])"

text \<open>The frames of one poll in arrival order, as they are to be stored: each FIFO
  element with its reconstructed timestamp.\<close>

definition rx_arrival_view ::
  "can_rx_fifo_element \<Rightarrow> u32 \<Rightarrow> can_rxf0e_0 \<times> can_rxf0e_1 \<times> u32 \<times> u8 list" where
  "rx_arrival_view e ts =
     (R0 e, R1 e, ts,
      if R0_RTR (R0 e) then [] else map (data e) [0..<unat (dlc_to_len (R1_DLC (R1 e)))])"

definition rx_poll_arrivals ::
  "nat \<Rightarrow> can \<Rightarrow> rx_poll \<Rightarrow> (can_rxf0e_0 \<times> can_rxf0e_1 \<times> u32 \<times> u8 list) list" where
  "rx_poll_arrivals fifo_size can p =
     map (\<lambda>j. rx_arrival_view (hw_rx_fifo p (rx_slot fifo_size (RXF0S_F0GI p) j))
                (rx_timestamps fifo_size can (hw_rx_fifo p) (RXF0S_F0GI p) (RXF0S_F0FL p) (poll_tsc p) (poll_tsv p)
                   (rx_slot fifo_size (RXF0S_F0GI p) j)))
       [0..<RXF0S_F0FL p]"

section \<open>Declarations that main.c takes from headers outside the given sources\<close>

text \<open>Bit timing and its advertised range (\<open>sc_can_bit_timing\<close>,
  \<open>sc_can_bit_timing_range\<close> with its \<open>min\<close> and \<open>max\<close>).\<close>

record sc_can_bit_timing =
  brp :: u16
  tseg1 :: u16
  tseg2 :: u8
  sjw :: u8

record sc_can_bit_timing_range =
  bt_min :: sc_can_bit_timing
  bt_max :: sc_can_bit_timing

text \<open>The fields that main.c reads from the host's messages after casting the message
  pointer to \<open>struct sc_msg_features\<close>, \<open>struct sc_msg_config\<close> and
  \<open>struct sc_msg_can_tx\<close> (a \<open>struct sc_msg_bittiming\<close> is read as its four
  timing fields).\<close>

record sc_msg_features =
  feat_op :: u8
  feat_arg :: u32

record sc_msg_config =
  config_arg :: u16

record sc_msg_can_tx =
  tx_dlc :: u8
  tx_flags :: u8
  tx_track_id :: u8
  tx_can_id :: u32
  tx_data :: "nat \<Rightarrow> u8"

text \<open>
  The message ids, error codes, flags, structure sizes, buffer and FIFO sizes, board
  capabilities and structure layouts are defined in supercan.h and the board headers,
  which are not among the given sources. They are parameters of the model: every function
  below takes them as the record \<open>H\<close>. \<open>can_on\<close>, \<open>can_off\<close> and
  \<open>sc_board_can_reset\<close> are functions of the repository outside the given sources;
  they are parameters too, as transformers of the channel state.
\<close>

record supercan =
  SC_MSG_EOF :: u8
  SC_MSG_HELLO_DEVICE :: u8
  SC_MSG_DEVICE_INFO :: u8
  SC_MSG_CAN_INFO :: u8
  SC_MSG_NM_BITTIMING :: u8
  SC_MSG_DT_BITTIMING :: u8
  SC_MSG_FEATURES :: u8
  SC_MSG_BUS :: u8
  SC_MSG_CAN_TX :: u8
  SC_ERROR_NONE :: u8
  SC_CAN_ERROR_NONE :: u8
  SC_ERROR_SHORT :: u8
  SC_ERROR_PARAM :: u8
  SC_ERROR_UNSUPPORTED :: u8
  SC_FEAT_OP_CLEAR :: u8
  SC_FEAT_OP_OR :: u8
  SC_FEATURE_FLAG_MON_MODE :: u32
  SC_FEATURE_FLAG_RES_MODE :: u32
  SC_FEATURE_FLAG_EXT_LOOP_MODE :: u32
  SC_CAN_FRAME_FLAG_EXT :: u8
  SC_CAN_FRAME_FLAG_RTR :: u8
  SC_CAN_FRAME_FLAG_FDF :: u8
  SC_CAN_FRAME_FLAG_BRS :: u8
  SC_CAN_FRAME_FLAG_ESI :: u8
  SC_CAN_FRAME_FLAG_DRP :: u8
  SC_CAN_STATUS_FLAG_TXR_DESYNC :: u8
  SC_CAN_ERROR_FLAG_RXTX_TX :: u8
  SC_CAN_ERROR_FLAG_NMDT_DT :: u8
  CAN_STATUS_FIFO_TYPE_BUS_STATUS :: u8
  CAN_STATUS_FIFO_TYPE_BUS_ERROR :: u8
  sizeof_sc_msg_hello :: nat
  sizeof_sc_msg_dev_info :: nat
  sizeof_sc_msg_can_info :: nat
  sizeof_sc_msg_bittiming :: nat
  sizeof_sc_msg_features :: nat
  sizeof_sc_msg_config :: nat
  sizeof_sc_msg_error :: nat
  sizeof_sc_msg_can_tx :: nat
  sizeof_sc_msg_can_txr :: nat
  sizeof_sc_msg_can_status :: nat
  sizeof_sc_msg_can_rx :: nat
  sizeof_sc_msg_can_error :: nat
  SC_MSG_CAN_LEN_MULTIPLE :: nat
  CMD_BUFFER_SIZE :: nat
  MSG_BUFFER_SIZE :: nat
  SC_M1_EP_SIZE :: nat
  CAN_RX_FIFO_SIZE :: nat
  CAN_TX_FIFO_SIZE :: nat
  CAN_STATUS_FIFO_SIZE :: nat
  sc_board_can_feat_perm :: u16
  sc_board_can_feat_conf :: u16
  sc_board_can_nm_bit_timing_range :: sc_can_bit_timing_range
  sc_board_can_dt_bit_timing_range :: sc_can_bit_timing_range
  as_sc_msg_bittiming :: "u8 list \<Rightarrow> sc_can_bit_timing"
  as_sc_msg_features :: "u8 list \<Rightarrow> sc_msg_features"
  as_sc_msg_config :: "u8 list \<Rightarrow> sc_msg_config"
  as_sc_msg_can_tx :: "u8 list \<Rightarrow> sc_msg_can_tx"
  can_on :: "can \<Rightarrow> can"
  can_off :: "can \<Rightarrow> can"
  sc_board_can_reset :: "can \<Rightarrow> can"

text \<open>The header \<open>struct sc_msg_header { uint8_t id; uint8_t len; }\<close> is two bytes.\<close>

definition SC_MSG_HEADER_LEN :: nat where
  "SC_MSG_HEADER_LEN = 2"

section \<open>USB endpoint state and the observable effects\<close>

text \<open>
  \<open>struct usb_cmd\<close> and \<open>struct usb_can\<close>: the fill offsets of the two transmit
  banks and the active bank numbers. The banks are numbered by a boolean (\<open>!tx_bank\<close>
  is the other bank). The offsets are \<open>uint16_t\<close>; additions to them are written with
  their wrap-around.
\<close>

record usb_ep =
  tx_offsets :: "bool \<Rightarrow> nat"
  tx_bank :: bool
  rx_bank :: bool

record sc_msg_can_status =
  st_rx_lost :: u16
  st_tx_dropped :: u16
  st_flags :: u8
  st_bus_status :: u8
  st_tx_errors :: u8
  st_rx_errors :: u8
  st_tx_fifo_size :: u8
  st_rx_fifo_size :: u8
  st_timestamp_us :: u32

record sc_msg_can_rx =
  rx_dlc :: u8
  rx_flags :: u8
  rx_can_id :: u32
  rx_timestamp_us :: u32
  rx_data :: "nat \<Rightarrow> u8"

text \<open>What the firmware writes into a transmit bank, by message kind and with the
  fields that main.c assigns.\<close>

datatype sc_msg_out =
    Msg_hello_host
  | Msg_device_info u16 u16
  | Msg_can_info sc_can_bit_timing_range sc_can_bit_timing_range
  | Msg_error u8
  | Msg_can_txr u8 u8 u32
  | Msg_can_status sc_msg_can_status
  | Msg_can_rx nat sc_msg_can_rx
  | Msg_can_error u8 u8 u32

text \<open>An element written to the hardware TX FIFO.\<close>

record can_tx_element =
  e_ESI :: bool
  e_RTR :: bool
  e_XTD :: bool
  e_ID :: u32
  e_DLC :: u8
  e_FDF :: bool
  e_BRS :: bool
  e_MM :: u8
  e_data :: "u8 list"

text \<open>
  The calls and writes that leave the modelled state, in program order: USB transfers
  (\<open>dcd_edpt_xfer\<close> on the IN endpoint with bank and length, on the OUT endpoint with
  the receive bank), messages written at an offset of a transmit bank, \<open>memset\<close> of a
  transmit bank, the board's bit timing setters, a frame put into the hardware TX FIFO
  (slot and element, with the \<open>TXBAR\<close> request), and a task notification.
\<close>

datatype effect =
    Edpt_xfer_cmd_in bool nat
  | Edpt_xfer_cmd_out bool
  | Edpt_xfer_can_in bool nat
  | Edpt_xfer_can_out bool
  | Write_cmd bool nat sc_msg_out
  | Write_can bool nat sc_msg_out
  | Memset_can bool nat nat nat
  | Board_nm_bit_timing_set sc_can_bit_timing
  | Board_dt_bit_timing_set sc_can_bit_timing
  | Tx_fifo_add nat can_tx_element
  | Task_notify

text \<open>One channel of the device: \<open>usb.cmd[index]\<close>, \<open>usb.can[index]\<close>,
  \<open>cans.can[index]\<close>, and the effects so far.\<close>

record device =
  usb_cmd :: usb_ep
  usb_can :: usb_ep
  cans_can :: can
  effects :: "effect list"

definition u16_add :: "nat \<Rightarrow> nat \<Rightarrow> nat" where
  "u16_add a b = (a + b) mod 65536"

section \<open>Double-buffered endpoints\<close>

definition sc_cmd_bulk_in_ep_ready :: "device \<Rightarrow> bool" where
  "sc_cmd_bulk_in_ep_ready s = (0 = tx_offsets (usb_cmd s) (\<not> tx_bank (usb_cmd s)))"

definition sc_cmd_bulk_in_submit :: "device \<Rightarrow> device" where
  "sc_cmd_bulk_in_submit s =
     (let cmd = usb_cmd s in
      s\<lparr>effects := effects s @ [Edpt_xfer_cmd_in (tx_bank cmd) (tx_offsets cmd (tx_bank cmd))],
        usb_cmd := cmd\<lparr>tx_bank := \<not> tx_bank cmd\<rparr>\<rparr>)"

definition sc_can_bulk_in_ep_ready :: "device \<Rightarrow> bool" where
  "sc_can_bulk_in_ep_ready s = (0 = tx_offsets (usb_can s) (\<not> tx_bank (usb_can s)))"

text \<open>
  \<open>sc_can_bulk_in_submit\<close>, without the checks that are compiled only under
  \<open>SUPERCAN_DEBUG\<close>:
  \<^verbatim>\<open>
  if (MSG_BUFFER_SIZE > SC_M1_EP_SIZE) {
      uint16_t offset = can->tx_offsets[can->tx_bank];
      bool need_to_send_zlp = offset < MSG_BUFFER_SIZE && 0 == (offset % SC_M1_EP_SIZE);
      if (need_to_send_zlp) {
          memset(&can->tx_buffers[can->tx_bank][offset], 0, 4);
          can->tx_offsets[can->tx_bank] += 4;
      }
  }
  (void)dcd_edpt_xfer(usb.port, 0x80 | can->pipe, can->tx_buffers[can->tx_bank],
                      can->tx_offsets[can->tx_bank]);
  can->tx_bank = !can->tx_bank;\<close>
\<close>

definition sc_can_bulk_in_zlp_fix :: "supercan \<Rightarrow> device \<Rightarrow> device" where
  "sc_can_bulk_in_zlp_fix H s =
     (let can = usb_can s in
      if MSG_BUFFER_SIZE H > SC_M1_EP_SIZE H then
        (let offset = tx_offsets can (tx_bank can);
             need_to_send_zlp = (offset < MSG_BUFFER_SIZE H \<and> 0 = offset mod SC_M1_EP_SIZE H)
         in if need_to_send_zlp then
              s\<lparr>effects := effects s @ [Memset_can (tx_bank can) offset 0 4],
                usb_can := can\<lparr>tx_offsets := (tx_offsets can)(tx_bank can := u16_add offset 4)\<rparr>\<rparr>
            else s)
      else s)"

definition sc_can_bulk_in_submit :: "supercan \<Rightarrow> device \<Rightarrow> device" where
  "sc_can_bulk_in_submit H s =
     (let s1 = sc_can_bulk_in_zlp_fix H s;
          can = usb_can s1
      in s1\<lparr>effects := effects s1 @ [Edpt_xfer_can_in (tx_bank can) (tx_offsets can (tx_bank can))],
            usb_can := can\<lparr>tx_bank := \<not> tx_bank can\<rparr>\<rparr>)"

text \<open>The transfer-complete callbacks \<open>sc_cmd_bulk_in\<close> and \<open>sc_can_bulk_in\<close>.\<close>

definition sc_cmd_bulk_in :: "device \<Rightarrow> device" where
  "sc_cmd_bulk_in s =
     (let cmd = usb_cmd s;
          s1 = s\<lparr>usb_cmd := cmd\<lparr>tx_offsets := (tx_offsets cmd)((\<not> tx_bank cmd) := 0)\<rparr>\<rparr>
      in if tx_offsets (usb_cmd s1) (tx_bank (usb_cmd s1)) \<noteq> 0 then sc_cmd_bulk_in_submit s1
         else s1)"

definition sc_can_bulk_in :: "supercan \<Rightarrow> device \<Rightarrow> device" where
  "sc_can_bulk_in H s =
     (let can = usb_can s;
          s1 = s\<lparr>usb_can := can\<lparr>tx_offsets := (tx_offsets can)((\<not> tx_bank can) := 0)\<rparr>\<rparr>
      in if tx_offsets (usb_can s1) (tx_bank (usb_can s1)) \<noteq> 0 then sc_can_bulk_in_submit H s1
         else s1)"

section \<open>Command processor (sc_cmd_bulk_out)\<close>

text \<open>
  \<open>sc_cmd_place_error_reply\<close>. The \<open>goto send\<close> after a submit is the recursive
  call; the function is partial because the source loops for ever when the reply is
  larger than an empty bank.
  \<^verbatim>\<open>
  send:
  out_ptr = tx_buffers[tx_bank] + tx_offsets[tx_bank];
  out_end = tx_buffers[tx_bank] + CMD_BUFFER_SIZE;
  if (out_end - out_ptr >= bytes) {
      tx_offsets[tx_bank] += bytes;
      rep->id = SC_MSG_ERROR; rep->len = sizeof(*rep); rep->error = error;
  } else {
      if (sc_cmd_bulk_in_ep_ready(index)) { sc_cmd_bulk_in_submit(index); goto send; }
      else { LOG("ch%u: no space for error reply\n", index); }
  }\<close>
\<close>

definition cmd_place :: "nat \<Rightarrow> sc_msg_out \<Rightarrow> device \<Rightarrow> device" where
  "cmd_place bytes rep s =
     (let cmd = usb_cmd s; offset = tx_offsets cmd (tx_bank cmd) in
      s\<lparr>usb_cmd := cmd\<lparr>tx_offsets := (tx_offsets cmd)(tx_bank cmd := u16_add offset bytes)\<rparr>,
        effects := effects s @ [Write_cmd (tx_bank cmd) offset rep]\<rparr>)"

definition cmd_room :: "supercan \<Rightarrow> nat \<Rightarrow> device \<Rightarrow> bool" where
  "cmd_room H bytes s =
     (int (CMD_BUFFER_SIZE H) - int (tx_offsets (usb_cmd s) (tx_bank (usb_cmd s))) \<ge> int bytes)"

partial_function (option) sc_cmd_place_error_reply :: "supercan \<Rightarrow> u8 \<Rightarrow> device \<Rightarrow> device option"
  where
  "sc_cmd_place_error_reply H error s =
     (if cmd_room H (sizeof_sc_msg_error H) s then
        Some (cmd_place (sizeof_sc_msg_error H) (Msg_error error) s)
      else if sc_cmd_bulk_in_ep_ready s then
        sc_cmd_place_error_reply H error (sc_cmd_bulk_in_submit s)
      else Some s)"

text \<open>The replies of \<open>SC_MSG_DEVICE_INFO\<close> (\<open>send_dev_info\<close>) and
  \<open>SC_MSG_CAN_INFO\<close> (\<open>send_can_info\<close>), with the same retry after a submit.
  Of the reply fields, the feature masks and the timing ranges are kept.\<close>

partial_function (option) send_dev_info :: "supercan \<Rightarrow> device \<Rightarrow> device option" where
  "send_dev_info H s =
     (if cmd_room H (sizeof_sc_msg_dev_info H) s then
        Some (cmd_place (sizeof_sc_msg_dev_info H)
                (Msg_device_info (sc_board_can_feat_perm H) (sc_board_can_feat_conf H)) s)
      else if sc_cmd_bulk_in_ep_ready s then send_dev_info H (sc_cmd_bulk_in_submit s)
      else Some s)"

partial_function (option) send_can_info :: "supercan \<Rightarrow> device \<Rightarrow> device option" where
  "send_can_info H s =
     (if cmd_room H (sizeof_sc_msg_can_info H) s then
        Some (cmd_place (sizeof_sc_msg_can_info H)
                (Msg_can_info (sc_board_can_nm_bit_timing_range H)
                   (sc_board_can_dt_bit_timing_range H)) s)
      else if sc_cmd_bulk_in_ep_ready s then send_can_info H (sc_cmd_bulk_in_submit s)
      else Some s)"

text \<open>
  Modelled from the spec: \<open>tu_min8\<close>, \<open>tu_min16\<close>, \<open>tu_max8\<close> and \<open>tu_max16\<close>
  are helpers of the USB stack's common header, which is not among the given sources.
  The spec (4.6) says that the bit-timing fields are clamped into the advertised range;
  the helpers are taken as the unsigned minimum and maximum of their arguments.
\<close>

definition tu_min16 :: "u16 \<Rightarrow> u16 \<Rightarrow> u16" where
  "tu_min16 x y = (if x < y then x else y)"

definition tu_max16 :: "u16 \<Rightarrow> u16 \<Rightarrow> u16" where
  "tu_max16 x y = (if x > y then x else y)"

definition tu_min8 :: "u8 \<Rightarrow> u8 \<Rightarrow> u8" where
  "tu_min8 x y = (if x < y then x else y)"

definition tu_max8 :: "u8 \<Rightarrow> u8 \<Rightarrow> u8" where
  "tu_max8 x y = (if x > y then x else y)"

text \<open>The \<open>// clamp\<close> block of the two bit-timing cases.\<close>

definition bt_clamp :: "sc_can_bit_timing_range \<Rightarrow> sc_can_bit_timing \<Rightarrow> sc_can_bit_timing" where
  "bt_clamp r tmsg =
     \<lparr>brp = tu_max16 (brp (bt_min r)) (tu_min16 (brp tmsg) (brp (bt_max r))),
      tseg1 = tu_max16 (tseg1 (bt_min r)) (tu_min16 (tseg1 tmsg) (tseg1 (bt_max r))),
      tseg2 = tu_max8 (tseg2 (bt_min r)) (tu_min8 (tseg2 tmsg) (tseg2 (bt_max r))),
      sjw = tu_max8 (sjw (bt_min r)) (tu_min8 (sjw tmsg) (sjw (bt_max r)))\<rparr>"

text \<open>\<open>__builtin_popcount\<close> on a 32-bit value.\<close>

definition builtin_popcount :: "u32 \<Rightarrow> nat" where
  "builtin_popcount w = length (filter (bit w) [0..<32])"

text \<open>
  The body of \<open>case SC_MSG_FEATURES\<close> after the length check. Both \<open>perm\<close> and
  \<open>conf\<close> are read with \<open>sc_board_can_feat_perm\<close>, as in the source. The complement
  \<open>~(perm | conf)\<close> is taken after the promotion of the 16-bit masks to \<open>int\<close>, so
  its upper 16 bits are set when it meets the 32-bit \<open>arg\<close>.
\<close>

definition sc_cmd_features :: "supercan \<Rightarrow> sc_msg_features \<Rightarrow> can \<Rightarrow> u8 \<times> can" where
  "sc_cmd_features H tmsg can =
     (let perm = sc_board_can_feat_perm H;
          conf = sc_board_can_feat_perm H
      in if feat_op tmsg = SC_FEAT_OP_CLEAR H then (SC_ERROR_NONE H, can\<lparr>features := perm\<rparr>)
         else if feat_op tmsg = SC_FEAT_OP_OR H then
           (let mode_bits = feat_arg tmsg AND
                  (SC_FEATURE_FLAG_MON_MODE H OR SC_FEATURE_FLAG_RES_MODE H
                     OR SC_FEATURE_FLAG_EXT_LOOP_MODE H)
            in if builtin_popcount mode_bits > 1 then (SC_ERROR_PARAM H, can)
               else if feat_arg tmsg AND NOT (ucast (perm OR conf)) \<noteq> 0 then
                 (SC_ERROR_UNSUPPORTED H, can)
               else (SC_ERROR_NONE H, can\<lparr>features := features can OR ucast (feat_arg tmsg)\<rparr>))
         else (SC_ERROR_NONE H, can))"

text \<open>
  The \<open>switch (msg->id)\<close> of \<open>sc_cmd_bulk_out\<close> for one message \<open>msg\<close> (its bytes,
  the header first) of declared length \<open>msg_len\<close>. The boolean of the result is set
  where the source assigns \<open>in_ptr = in_end\<close>.
\<close>

definition sc_cmd_dispatch ::
  "supercan \<Rightarrow> u8 \<Rightarrow> nat \<Rightarrow> u8 list \<Rightarrow> device \<Rightarrow> (bool \<times> device) option" where
  "sc_cmd_dispatch H msg_id msg_len msg s =
     (if msg_id = SC_MSG_EOF H then Some (True, s)
      else if msg_id = SC_MSG_HELLO_DEVICE H then
        (let s1 = s\<lparr>cans_can := sc_board_can_reset H (cans_can s)\<rparr>;
             s2 = s1\<lparr>effects := effects s1 @
                    [Edpt_xfer_can_in (tx_bank (usb_can s1))
                       (tx_offsets (usb_can s1) (tx_bank (usb_can s1)))]\<rparr>;
             cmd = usb_cmd s2;
             len = sizeof_sc_msg_hello H
         in Some (True,
              s2\<lparr>usb_cmd := cmd\<lparr>tx_offsets := (tx_offsets cmd)(tx_bank cmd := len)\<rparr>,
                 effects := effects s2 @ [Write_cmd (tx_bank cmd) 0 Msg_hello_host]\<rparr>))
      else if msg_id = SC_MSG_DEVICE_INFO H then
        map_option (Pair False) (send_dev_info H s)
      else if msg_id = SC_MSG_CAN_INFO H then
        map_option (Pair False) (send_can_info H s)
      else if msg_id = SC_MSG_NM_BITTIMING H then
        (if msg_len < sizeof_sc_msg_bittiming H then
           map_option (Pair False) (sc_cmd_place_error_reply H (SC_ERROR_SHORT H) s)
         else
           (let bt_target = bt_clamp (sc_board_can_nm_bit_timing_range H) (as_sc_msg_bittiming H msg);
                s1 = s\<lparr>effects := effects s @ [Board_nm_bit_timing_set bt_target]\<rparr>
            in map_option (Pair False) (sc_cmd_place_error_reply H (SC_CAN_ERROR_NONE H) s1)))
      else if msg_id = SC_MSG_DT_BITTIMING H then
        (if msg_len < sizeof_sc_msg_bittiming H then
           map_option (Pair False) (sc_cmd_place_error_reply H (SC_ERROR_SHORT H) s)
         else
           (let bt_target = bt_clamp (sc_board_can_dt_bit_timing_range H) (as_sc_msg_bittiming H msg);
                s1 = s\<lparr>effects := effects s @ [Board_nm_bit_timing_set bt_target]\<rparr>
            in map_option (Pair False) (sc_cmd_place_error_reply H (SC_CAN_ERROR_NONE H) s1)))
      else if msg_id = SC_MSG_FEATURES H then
        (if msg_len < sizeof_sc_msg_features H then
           map_option (Pair False) (sc_cmd_place_error_reply H (SC_ERROR_SHORT H) s)
         else
           (case sc_cmd_features H (as_sc_msg_features H msg) (cans_can s) of
              (error, can') \<Rightarrow>
                map_option (Pair False)
                  (sc_cmd_place_error_reply H error (s\<lparr>cans_can := can'\<rparr>))))
      else if msg_id = SC_MSG_BUS H then
        (if msg_len < sizeof_sc_msg_config H then
           map_option (Pair False) (sc_cmd_place_error_reply H (SC_ERROR_SHORT H) s)
         else
           (let was_enabled = enabled (cans_can s);
                is_enabled = (config_arg (as_sc_msg_config H msg) \<noteq> 0);
                s1 = (if was_enabled \<noteq> is_enabled then
                        (if is_enabled then s\<lparr>cans_can := can_on H (cans_can s)\<rparr>
                         else s\<lparr>cans_can := can_off H (cans_can s)\<rparr>)
                      else s)
            in map_option (Pair False) (sc_cmd_place_error_reply H (SC_ERROR_NONE H) s1)))
      else map_option (Pair False) (sc_cmd_place_error_reply H (SC_ERROR_UNSUPPORTED H) s))"

text \<open>
  The message loop of \<open>sc_cmd_bulk_out\<close> over the receive buffer \<open>buf\<close>, with
  \<open>in_end\<close> the number of received bytes and \<open>in_ptr\<close> the offset of the next
  header:
  \<^verbatim>\<open>
  while (in_ptr + SC_MSG_HEADER_LEN <= in_end) {
      struct sc_msg_header const *msg = (struct sc_msg_header const *)in_ptr;
      if (in_ptr + msg->len > in_end) { LOG("ch%u malformed msg\n", index); break; }
      if (!msg->len) { break; }
      in_ptr += msg->len;
      switch (msg->id) { ... }
  }\<close>
\<close>

function sc_cmd_bulk_out_loop ::
  "supercan \<Rightarrow> u8 list \<Rightarrow> nat \<Rightarrow> nat \<Rightarrow> device \<Rightarrow> device option" where
  "sc_cmd_bulk_out_loop H buf in_end in_ptr s =
     (if in_ptr + SC_MSG_HEADER_LEN \<le> in_end then
        (let msg_id = buf ! in_ptr;
             msg_len = unat (buf ! (in_ptr + 1))
         in if in_ptr + msg_len > in_end then Some s
            else if msg_len = 0 then Some s
            else
              (case sc_cmd_dispatch H msg_id msg_len (take msg_len (drop in_ptr buf)) s of
                 None \<Rightarrow> None
               | Some (stop, s') \<Rightarrow>
                   sc_cmd_bulk_out_loop H buf in_end
                     (if stop then in_end else in_ptr + msg_len) s'))
      else Some s)"
  by pat_completeness auto
termination
  by (relation "measure (\<lambda>(H, buf, in_end, in_ptr, s). in_end - in_ptr)")
     (auto simp: SC_MSG_HEADER_LEN_def)

text \<open>
  \<open>sc_cmd_bulk_out\<close>: the next receive transfer is set up first, then the messages are
  processed, then a filled bank is submitted when the endpoint is ready.
\<close>

definition sc_cmd_bulk_out :: "supercan \<Rightarrow> u8 list \<Rightarrow> nat \<Rightarrow> device \<Rightarrow> device option" where
  "sc_cmd_bulk_out H buf xferred_bytes s =
     (let cmd = usb_cmd s;
          s1 = s\<lparr>usb_cmd := cmd\<lparr>rx_bank := \<not> rx_bank cmd\<rparr>,
                 effects := effects s @ [Edpt_xfer_cmd_out (\<not> rx_bank cmd)]\<rparr>
      in case sc_cmd_bulk_out_loop H buf xferred_bytes 0 s1 of
           None \<Rightarrow> None
         | Some s2 \<Rightarrow>
             Some (if tx_offsets (usb_cmd s2) (tx_bank (usb_cmd s2)) > 0
                      \<and> sc_cmd_bulk_in_ep_ready s2
                   then sc_cmd_bulk_in_submit s2 else s2))"

section \<open>Host TX frames (sc_process_msg_can_tx, sc_can_bulk_out)\<close>

text \<open>
  The hardware registers and the microsecond counter that the task-side code reads:
  \<open>TXFQS.bit.TFQPI\<close>, \<open>TXFQS.bit.TFFL\<close>, \<open>ECR.bit.TEC\<close>, \<open>ECR.bit.REC\<close>,
  \<open>RXF0S.bit.F0FL\<close> and the value of \<open>counter_1MHz_wait_for_current_value\<close>.
\<close>

record hw_regs =
  TXFQS_TFQPI :: nat
  TXFQS_TFFL :: nat
  ECR_TEC :: u8
  ECR_REC :: u8
  hw_F0FL :: u8
  counter_1MHz :: u32

text \<open>\<open>(size_t)(tx_end - tx_ptr) >= bytes\<close> on a bank of the CAN-data endpoint; the
  pointer difference is converted to the 32-bit unsigned \<open>size_t\<close>.\<close>

definition can_room :: "supercan \<Rightarrow> nat \<Rightarrow> device \<Rightarrow> bool" where
  "can_room H bytes s =
     (nat ((int (MSG_BUFFER_SIZE H) - int (tx_offsets (usb_can s) (tx_bank (usb_can s))))
            mod 2 ^ 32) \<ge> bytes)"

definition can_place :: "nat \<Rightarrow> sc_msg_out \<Rightarrow> device \<Rightarrow> device" where
  "can_place bytes msg s =
     (let uc = usb_can s; offset = tx_offsets uc (tx_bank uc) in
      s\<lparr>usb_can := uc\<lparr>tx_offsets := (tx_offsets uc)(tx_bank uc := u16_add offset bytes)\<rparr>,
        effects := effects s @ [Write_can (tx_bank uc) offset msg]\<rparr>)"

text \<open>
  The \<open>else\<close> branch of \<open>sc_process_msg_can_tx\<close> takes \<open>tx_beg\<close> and
  \<open>tx_end\<close> once, from the bank that is active on entry, and only \<open>tx_ptr\<close>
  again after the label:
  \<^verbatim>\<open>
  uint8_t * const tx_beg = usb_can->tx_buffers[usb_can->tx_bank];
  uint8_t * const tx_end = tx_beg + TU_ARRAY_SIZE(usb_can->tx_buffers[usb_can->tx_bank]);
  ...
  send_txr:
  tx_ptr = tx_beg + usb_can->tx_offsets[usb_can->tx_bank];
  if ((size_t)(tx_end - tx_ptr) >= sizeof(*rep)) {
      usb_can->tx_offsets[usb_can->tx_bank] += sizeof(*rep);
      rep = (struct sc_msg_can_txr*)tx_ptr;
      rep->id = SC_MSG_CAN_TXR; rep->len = sizeof(*rep);
      rep->track_id = tmsg->track_id; rep->flags = SC_CAN_FRAME_FLAG_DRP;
      rep->timestamp_us = counter_1MHz_wait_for_current_value();
  } else {
      if (sc_can_bulk_in_ep_ready(index)) { sc_can_bulk_in_submit(index, __func__); goto send_txr; }
      else { LOG("ch%u: desync\n", index); can->desync = true; }
  }\<close>
  So the message is written into the buffer of the bank \<open>beg\<close> that was active on
  entry, at the fill offset of the bank that is active now, and it is the fill offset of
  the bank active now that grows. The two banks have the same size, so the room test
  \<open>tx_end - tx_ptr\<close> is that of \<open>can_room\<close>. After a submit the two banks differ.
\<close>

definition can_place_at :: "bool \<Rightarrow> nat \<Rightarrow> sc_msg_out \<Rightarrow> device \<Rightarrow> device" where
  "can_place_at beg bytes msg s =
     (let uc = usb_can s; offset = tx_offsets uc (tx_bank uc) in
      s\<lparr>usb_can := uc\<lparr>tx_offsets := (tx_offsets uc)(tx_bank uc := u16_add offset bytes)\<rparr>,
        effects := effects s @ [Write_can beg offset msg]\<rparr>)"

partial_function (option) send_txr ::
  "supercan \<Rightarrow> bool \<Rightarrow> u8 \<Rightarrow> u32 \<Rightarrow> device \<Rightarrow> device option"
  where
  "send_txr H beg track_id ts s =
     (if can_room H (sizeof_sc_msg_can_txr H) s then
        Some (can_place_at beg (sizeof_sc_msg_can_txr H)
                (Msg_can_txr track_id (SC_CAN_FRAME_FLAG_DRP H) ts) s)
      else if sc_can_bulk_in_ep_ready s then
        send_txr H beg track_id ts (sc_can_bulk_in_submit H s)
      else Some (s\<lparr>cans_can := (cans_can s)\<lparr>desync := True\<rparr>\<rparr>))"

text \<open>The element that the \<open>if (can->tx_available)\<close> branch writes to
  \<open>can->tx_fifo[put_index]\<close>; \<open>CAN_TXBE_0_ID\<close> keeps the low 29 bits, and the
  bit-field \<open>T1.bit.DLC\<close> of the TX buffer element is 4 bits wide, so that it keeps
  \<open>tmsg->dlc & 0xf\<close>.\<close>

definition tx_element_of :: "supercan \<Rightarrow> sc_msg_can_tx \<Rightarrow> can_tx_element" where
  "tx_element_of H tmsg =
     (let flags = tx_flags tmsg; can_frame_len = dlc_to_len (tx_dlc tmsg) in
      \<lparr>e_ESI = (flags AND SC_CAN_FRAME_FLAG_ESI H = SC_CAN_FRAME_FLAG_ESI H),
       e_RTR = (flags AND SC_CAN_FRAME_FLAG_RTR H = SC_CAN_FRAME_FLAG_RTR H),
       e_XTD = (flags AND SC_CAN_FRAME_FLAG_EXT H = SC_CAN_FRAME_FLAG_EXT H),
       e_ID = (if flags AND SC_CAN_FRAME_FLAG_EXT H \<noteq> 0 then tx_can_id tmsg AND 0x1fffffff
               else push_bit 18 (tx_can_id tmsg) AND 0x1fffffff),
       e_DLC = tx_dlc tmsg AND 0xf,
       e_FDF = (flags AND SC_CAN_FRAME_FLAG_FDF H = SC_CAN_FRAME_FLAG_FDF H),
       e_BRS = (flags AND SC_CAN_FRAME_FLAG_BRS H = SC_CAN_FRAME_FLAG_BRS H),
       e_MM = tx_track_id tmsg,
       e_data = (if flags AND SC_CAN_FRAME_FLAG_RTR H = 0 \<and> can_frame_len \<noteq> 0
                 then map (tx_data tmsg) [0..<unat can_frame_len] else [])\<rparr>)"

text \<open>
  \<open>sc_process_msg_can_tx\<close> for a message \<open>msg\<close> of declared length \<open>msg_len\<close>:
  too short a message returns at once; with a free TX slot the counter is decremented
  and the frame goes to the hardware FIFO at \<open>TXFQS.bit.TFQPI\<close>; with none the frame
  is counted in \<open>tx_dropped\<close> and a TXR with the drop flag is sent.
\<close>

definition sc_process_msg_can_tx ::
  "supercan \<Rightarrow> hw_regs \<Rightarrow> nat \<Rightarrow> u8 list \<Rightarrow> device \<Rightarrow> device option" where
  "sc_process_msg_can_tx H hw msg_len msg s =
     (let tmsg = as_sc_msg_can_tx H msg; can = cans_can s in
      if msg_len < sizeof_sc_msg_can_tx H then Some s
      else
        (let can_frame_len = dlc_to_len (tx_dlc tmsg) in
         if tx_flags tmsg AND SC_CAN_FRAME_FLAG_RTR H = 0
            \<and> msg_len < sizeof_sc_msg_can_tx H + unat can_frame_len then Some s
         else if tx_available can \<noteq> 0 then
           Some (s\<lparr>cans_can := can\<lparr>tx_available := tx_available can - 1\<rparr>,
                   effects := effects s @ [Tx_fifo_add (TXFQS_TFQPI hw) (tx_element_of H tmsg)]\<rparr>)
         else
           send_txr H (tx_bank (usb_can s)) (tx_track_id tmsg) (counter_1MHz hw)
             (s\<lparr>cans_can := can\<lparr>tx_dropped := tx_dropped can + 1\<rparr>\<rparr>)))"

text \<open>
  The message loop of \<open>sc_can_bulk_out\<close>; \<open>hw\<close> gives the registers as they are
  read while the message at an offset is processed.
  \<^verbatim>\<open>
  while (in_ptr + SC_MSG_HEADER_LEN <= in_end) {
      struct sc_msg_header const *msg = (struct sc_msg_header const *)in_ptr;
      if (in_ptr + msg->len > in_end) { LOG(...); break; }
      if (!msg->id || !msg->len) { in_ptr = in_end; break; }
      in_ptr += msg->len;
      switch (msg->id) {
      case SC_MSG_CAN_TX: sc_process_msg_can_tx(index, msg); break;
      default: break;
      }
  }\<close>
\<close>

function sc_can_bulk_out_loop ::
  "supercan \<Rightarrow> (nat \<Rightarrow> hw_regs) \<Rightarrow> u8 list \<Rightarrow> nat \<Rightarrow> nat \<Rightarrow> device \<Rightarrow> device option" where
  "sc_can_bulk_out_loop H hw buf in_end in_ptr s =
     (if in_ptr + SC_MSG_HEADER_LEN \<le> in_end then
        (let msg_id = buf ! in_ptr;
             msg_len = unat (buf ! (in_ptr + 1))
         in if in_ptr + msg_len > in_end then Some s
            else if msg_id = 0 \<or> msg_len = 0 then Some s
            else
              (case (if msg_id = SC_MSG_CAN_TX H
                     then sc_process_msg_can_tx H (hw in_ptr) msg_len (take msg_len (drop in_ptr buf)) s
                     else Some s) of
                 None \<Rightarrow> None
               | Some s' \<Rightarrow> sc_can_bulk_out_loop H hw buf in_end (in_ptr + msg_len) s'))
      else Some s)"
  by pat_completeness auto
termination
  by (relation "measure (\<lambda>(H, hw, buf, in_end, in_ptr, s). in_end - in_ptr)")
     (auto simp: SC_MSG_HEADER_LEN_def)

definition sc_can_bulk_out ::
  "supercan \<Rightarrow> (nat \<Rightarrow> hw_regs) \<Rightarrow> u8 list \<Rightarrow> nat \<Rightarrow> device \<Rightarrow> device option" where
  "sc_can_bulk_out H hw buf xferred_bytes s =
     (let uc = usb_can s;
          s1 = s\<lparr>usb_can := uc\<lparr>rx_bank := \<not> rx_bank uc\<rparr>,
                 effects := effects s @ [Edpt_xfer_can_out (\<not> rx_bank uc)]\<rparr>
      in if xferred_bytes = 0 then Some s1
         else
           (case sc_can_bulk_out_loop H hw buf xferred_bytes 0 s1 of
              None \<Rightarrow> None
            | Some s2 \<Rightarrow>
                Some (if sc_can_bulk_in_ep_ready s2
                         \<and> tx_offsets (usb_can s2) (tx_bank (usb_can s2)) \<noteq> 0
                      then sc_can_bulk_in_submit H s2 else s2)))"

section \<open>The per-channel task (can_usb_task, SPAM = 0)\<close>

text \<open>
  The locals of the task that the inner loop reads and writes, and the ways in which one
  pass through the body of \<open>for (bool done = false; !done; )\<close> ends: by \<open>continue\<close>
  or by reaching the end with \<open>done\<close> false (another pass follows), by reaching the
  end with \<open>done\<close> true, by \<open>break\<close>, or in a failed \<open>SC_ASSERT\<close>. The tick
  counter and the LED state, which the body also updates, are left out.
\<close>

record task_locals =
  send_can_status :: bool
  current_bus_status :: u8
  has_bus_error :: bool
  yield :: bool

datatype pass_result =
    Pass_through bool task_locals device
  | Pass_continue task_locals device
  | Pass_break task_locals device
  | Pass_halt

text \<open>The status message that the task builds. \<open>msg->tx_fifo_size =
  CAN_TX_FIFO_SIZE - can->m_can->TXFQS.bit.TFFL\<close> is stored in an 8-bit field: the
  difference is taken modulo 256.\<close>

definition status_msg :: "supercan \<Rightarrow> hw_regs \<Rightarrow> task_locals \<Rightarrow> can \<Rightarrow> sc_msg_can_status" where
  "status_msg H hw t can =
     \<lparr>st_rx_lost = rx_lost can,
      st_tx_dropped = tx_dropped can,
      st_flags = (if desync can then int_comm_flags can OR SC_CAN_STATUS_FLAG_TXR_DESYNC H
                  else int_comm_flags can),
      st_bus_status = current_bus_status t,
      st_tx_errors = ECR_TEC hw,
      st_rx_errors = ECR_REC hw,
      st_tx_fifo_size = of_nat (CAN_TX_FIFO_SIZE H) - of_nat (TXFQS_TFFL hw),
      st_rx_fifo_size = hw_F0FL hw,
      st_timestamp_us = counter_1MHz hw\<rparr>"

text \<open>\<open>if (send_can_status) { ... }\<close>: the snapshot is written when it fits (and the
  two counters are read and cleared), else the bank is submitted and the pass restarts,
  else the task re-arms its notification and breaks.\<close>

definition usb_task_send_status ::
  "supercan \<Rightarrow> hw_regs \<Rightarrow> bool \<Rightarrow> task_locals \<Rightarrow> device \<Rightarrow> pass_result" where
  "usb_task_send_status H hw done t s =
     (if send_can_status t then
        (if can_room H (sizeof_sc_msg_can_status H) s then
           (let can = cans_can s;
                s1 = can_place (sizeof_sc_msg_can_status H)
                       (Msg_can_status (status_msg H hw t can)) s
            in Pass_through False (t\<lparr>send_can_status := False\<rparr>)
                 (s1\<lparr>cans_can := can\<lparr>rx_lost := 0, tx_dropped := 0\<rparr>\<rparr>))
         else if sc_can_bulk_in_ep_ready s then Pass_continue t (sc_can_bulk_in_submit H s)
         else Pass_break (t\<lparr>yield := True\<rparr>) (s\<lparr>effects := effects s @ [Task_notify]\<rparr>))
      else Pass_through done t s)"

text \<open>The status ring: a bus status entry updates the task's status and asks for a
  snapshot; a bus error entry is written as an error message when it fits. When it does
  not fit and the endpoint is ready the bank is submitted and the entry stays; when the
  endpoint is not ready the entry is consumed all the same.\<close>

definition usb_task_status_fifo ::
  "supercan \<Rightarrow> hw_regs \<Rightarrow> bool \<Rightarrow> task_locals \<Rightarrow> device \<Rightarrow> pass_result" where
  "usb_task_status_fifo H hw done t s =
     (let can = cans_can s in
      if status_get_index can \<noteq> status_put_index can then
        (let fifo_index = unat (status_get_index can) mod CAN_STATUS_FIFO_SIZE H;
             e = status_fifo can fifo_index;
             advance = (\<lambda>s'. s'\<lparr>cans_can := (cans_can s')
                          \<lparr>status_get_index := status_get_index (cans_can s') + 1\<rparr>\<rparr>)
         in if s_type e = CAN_STATUS_FIFO_TYPE_BUS_STATUS H then
              Pass_through False
                (t\<lparr>current_bus_status := s_payload e, send_can_status := True\<rparr>) (advance s)
            else if s_type e = CAN_STATUS_FIFO_TYPE_BUS_ERROR H then
              (let t1 = t\<lparr>has_bus_error := True\<rparr> in
               if can_room H (sizeof_sc_msg_can_error H) s then
                 Pass_through False t1
                   (advance (can_place (sizeof_sc_msg_can_error H)
                      (Msg_can_error (s_payload e)
                         ((if s_tx e then SC_CAN_ERROR_FLAG_RXTX_TX H else 0)
                            OR (if s_data_part e then SC_CAN_ERROR_FLAG_NMDT_DT H else 0))
                         (s_ts e)) s))
               else if sc_can_bulk_in_ep_ready s then
                 Pass_continue t1 (sc_can_bulk_in_submit H s)
               else
                 Pass_through False (t1\<lparr>yield := True\<rparr>)
                   (advance (s\<lparr>effects := effects s @ [Task_notify]\<rparr>)))
            else Pass_through False t (advance s))
      else Pass_through done t s)"

text \<open>The RX message for a ring entry: length (header structure plus payload unless
  RTR, rounded up to \<open>SC_MSG_CAN_LEN_MULTIPLE\<close>, in 8-bit arithmetic) and fields.\<close>

definition rx_msg_bytes :: "supercan \<Rightarrow> rx_frame \<Rightarrow> nat" where
  "rx_msg_bytes H f =
     (let bytes0 = sizeof_sc_msg_can_rx H mod 256;
          can_frame_len = unat (dlc_to_len (R1_DLC (f_R1 f)));
          bytes1 = (if \<not> R0_RTR (f_R0 f) then (bytes0 + can_frame_len) mod 256 else bytes0);
          m = SC_MSG_CAN_LEN_MULTIPLE H
      in if bytes1 AND (m - 1) \<noteq> 0 then (bytes1 + (m - (bytes1 AND (m - 1)))) mod 256
         else bytes1)"

definition rx_msg_of :: "supercan \<Rightarrow> rx_frame \<Rightarrow> sc_msg_can_rx" where
  "rx_msg_of H f =
     (let r0 = f_R0 f; r1 = f_R1 f; can_frame_len = unat (dlc_to_len (R1_DLC r1)) in
      \<lparr>rx_dlc = R1_DLC r1,
       rx_flags = (if R0_XTD r0 then SC_CAN_FRAME_FLAG_EXT H else 0)
                  OR (if R1_FDF r1
                      then SC_CAN_FRAME_FLAG_FDF H
                           OR (if R1_BRS r1 then SC_CAN_FRAME_FLAG_BRS H else 0)
                      else (if R0_RTR r0 then SC_CAN_FRAME_FLAG_RTR H else 0)),
       rx_can_id = (if R0_XTD r0 then R0_ID r0 else drop_bit 18 (R0_ID r0)),
       rx_timestamp_us = f_ts f,
       rx_data = (if R1_FDF r1 \<or> \<not> R0_RTR r0 then memcpy (\<lambda>k. 0) (f_data f) can_frame_len
                  else (\<lambda>k. 0))\<rparr>)"

text \<open>
  The RX ring. The count is taken in 8 bits, the assertion on the promoted operands:
  \<^verbatim>\<open>
  uint8_t rx_count = rx_put_index - can->rx_get_index;
  if (unlikely(rx_count > CAN_RX_FIFO_SIZE)) {
      LOG("ch%u rx count %u\n", index, rx_count);
      SC_ASSERT(rx_put_index - can->rx_get_index <= CAN_RX_FIFO_SIZE);
  }\<close>
  so that the assertion holds, and the task goes on, when the put index has wrapped
  below the get index.
\<close>

definition usb_task_rx ::
  "supercan \<Rightarrow> hw_regs \<Rightarrow> bool \<Rightarrow> task_locals \<Rightarrow> device \<Rightarrow> pass_result" where
  "usb_task_rx H hw done t s =
     (let can = cans_can s in
      if rx_get_index can \<noteq> rx_put_index can then
        (let rx_count = rx_put_index can - rx_get_index can in
         if unat rx_count > CAN_RX_FIFO_SIZE H
            \<and> \<not> int (unat (rx_put_index can)) - int (unat (rx_get_index can))
                   \<le> int (CAN_RX_FIFO_SIZE H)
         then Pass_halt
         else
           (let t1 = t\<lparr>has_bus_error := False\<rparr>;
                get_index = unat (rx_get_index can) AND (CAN_RX_FIFO_SIZE H - 1);
                f = rx_frames can get_index;
                bytes = rx_msg_bytes H f
            in if can_room H bytes s then
                 (let s1 = can_place bytes (Msg_can_rx bytes (rx_msg_of H f)) s in
                  Pass_through False t1
                    (s1\<lparr>cans_can := (cans_can s1)\<lparr>rx_get_index := rx_get_index can + 1\<rparr>\<rparr>))
               else if sc_can_bulk_in_ep_ready s then
                 Pass_continue t1 (sc_can_bulk_in_submit H s)
               else Pass_break (t1\<lparr>yield := True\<rparr>) (s\<lparr>effects := effects s @ [Task_notify]\<rparr>)))
      else Pass_through done t s)"

text \<open>
  The TX acknowledgement ring:
  \<^verbatim>\<open>
  __atomic_store_n(&can->tx_get_index, can->tx_get_index+1, __ATOMIC_RELEASE);
  SC_ASSERT(can->tx_available < CAN_TX_FIFO_SIZE);
  ++can->tx_available;\<close>
  after the TXR has been written.
\<close>

definition txr_flags :: "supercan \<Rightarrow> tx_frame \<Rightarrow> u8" where
  "txr_flags H f =
     (if T0_XTD (t_T0 f) then SC_CAN_FRAME_FLAG_EXT H else 0)
     OR (if T1_FDF (t_T1 f)
         then SC_CAN_FRAME_FLAG_FDF H
              OR (if T0_ESI (t_T0 f) then SC_CAN_FRAME_FLAG_ESI H else 0)
              OR (if T1_BRS (t_T1 f) then SC_CAN_FRAME_FLAG_BRS H else 0)
         else (if T0_RTR (t_T0 f) then SC_CAN_FRAME_FLAG_RTR H else 0))"

definition usb_task_tx ::
  "supercan \<Rightarrow> hw_regs \<Rightarrow> bool \<Rightarrow> task_locals \<Rightarrow> device \<Rightarrow> pass_result" where
  "usb_task_tx H hw done t s =
     (let can = cans_can s in
      if tx_get_index can \<noteq> tx_put_index can then
        (let t1 = t\<lparr>has_bus_error := False\<rparr>;
             get_index = unat (tx_get_index can) AND (CAN_TX_FIFO_SIZE H - 1);
             f = tx_frames can get_index
         in if can_room H (sizeof_sc_msg_can_txr H) s then
              (let s1 = can_place (sizeof_sc_msg_can_txr H)
                          (Msg_can_txr (T1_MM (t_T1 f)) (txr_flags H f) (t_ts f)) s
               in if \<not> unat (tx_available can) < CAN_TX_FIFO_SIZE H then Pass_halt
                  else Pass_through False t1
                         (s1\<lparr>cans_can := (cans_can s1)
                               \<lparr>tx_get_index := tx_get_index can + 1,
                                tx_available := tx_available can + 1\<rparr>\<rparr>))
            else if sc_can_bulk_in_ep_ready s then
              Pass_continue t1 (sc_can_bulk_in_submit H s)
            else Pass_break (t1\<lparr>yield := True\<rparr>) (s\<lparr>effects := effects s @ [Task_notify]\<rparr>))
      else Pass_through done t s)"

text \<open>One pass through the loop body: \<open>done = true\<close>, then the four parts in the
  source's order; a part that ends the pass is the result.\<close>

definition pass_then ::
  "pass_result \<Rightarrow> (bool \<Rightarrow> task_locals \<Rightarrow> device \<Rightarrow> pass_result) \<Rightarrow> pass_result" where
  "pass_then r f = (case r of Pass_through done t s \<Rightarrow> f done t s | _ \<Rightarrow> r)"

definition can_usb_task_pass :: "supercan \<Rightarrow> hw_regs \<Rightarrow> task_locals \<Rightarrow> device \<Rightarrow> pass_result"
  where
  "can_usb_task_pass H hw t s =
     pass_then (pass_then (pass_then (usb_task_send_status H hw True t s)
        (usb_task_status_fifo H hw)) (usb_task_rx H hw)) (usb_task_tx H hw)"

text \<open>After the loop: \<open>if (sc_can_bulk_in_ep_ready(index) &&
  usb_can->tx_offsets[usb_can->tx_bank]) sc_can_bulk_in_submit(index, __func__);\<close>\<close>

definition can_usb_task_flush :: "supercan \<Rightarrow> device \<Rightarrow> device" where
  "can_usb_task_flush H s =
     (if sc_can_bulk_in_ep_ready s \<and> tx_offsets (usb_can s) (tx_bank (usb_can s)) \<noteq> 0
      then sc_can_bulk_in_submit H s else s)"

section \<open>Runs of the device\<close>

text \<open>
  The steps of one channel that are in the given sources: the USB callbacks, one pass of
  the task's loop and the submit after it, a poll of the RX FIFO, and a command message
  other than \<open>SC_MSG_HELLO_DEVICE\<close> and \<open>SC_MSG_BUS\<close> (these two call the reset
  and bus on/off functions, which are not among the given sources). A step that does
  not return (a failed assertion, a retry loop that never ends) gives \<open>None\<close>.
\<close>

datatype event =
    Ev_can_bulk_out "nat \<Rightarrow> hw_regs" "u8 list" nat
  | Ev_can_bulk_in
  | Ev_cmd_bulk_in
  | Ev_task_pass hw_regs
  | Ev_task_flush
  | Ev_can_poll_rx rx_poll
  | Ev_cmd_msg u8 nat "u8 list"

fun apply_event ::
  "supercan \<Rightarrow> event \<Rightarrow> task_locals \<times> device \<Rightarrow> (task_locals \<times> device) option" where
  "apply_event H (Ev_can_bulk_out hw buf n) (t, s) =
     map_option (Pair t) (sc_can_bulk_out H hw buf n s)"
| "apply_event H Ev_can_bulk_in (t, s) = Some (t, sc_can_bulk_in H s)"
| "apply_event H Ev_cmd_bulk_in (t, s) = Some (t, sc_cmd_bulk_in s)"
| "apply_event H (Ev_task_pass hw) (t, s) =
     (case can_usb_task_pass H hw t s of
        Pass_through done t' s' \<Rightarrow> Some (t', s')
      | Pass_continue t' s' \<Rightarrow> Some (t', s')
      | Pass_break t' s' \<Rightarrow> Some (t', s')
      | Pass_halt \<Rightarrow> None)"
| "apply_event H Ev_task_flush (t, s) = Some (t, can_usb_task_flush H s)"
| "apply_event H (Ev_can_poll_rx p) (t, s) =
     (case can_poll_rx (CAN_RX_FIFO_SIZE H) p (0, cans_can s) of
        Inl h \<Rightarrow> None
      | Inr (more_flag, events', can') \<Rightarrow> Some (t, s\<lparr>cans_can := can'\<rparr>))"
| "apply_event H (Ev_cmd_msg msg_id msg_len msg) (t, s) =
     (if msg_id = SC_MSG_HELLO_DEVICE H \<or> msg_id = SC_MSG_BUS H then None
      else map_option (\<lambda>r. (t, snd r)) (sc_cmd_dispatch H msg_id msg_len msg s))"

fun run_events ::
  "supercan \<Rightarrow> event list \<Rightarrow> task_locals \<times> device \<Rightarrow> (task_locals \<times> device) option" where
  "run_events H [] st = Some st"
| "run_events H (ev # evs) st =
     (case apply_event H ev st of None \<Rightarrow> None | Some st' \<Rightarrow> run_events H evs st')"

section \<open>Notions used in the statements about messages\<close>

text \<open>The case labels of the command switch are pairwise different (C requires it).\<close>

definition sc_cmd_ids_distinct :: "supercan \<Rightarrow> bool" where
  "sc_cmd_ids_distinct H =
     distinct [SC_MSG_EOF H, SC_MSG_HELLO_DEVICE H, SC_MSG_DEVICE_INFO H, SC_MSG_CAN_INFO H,
               SC_MSG_NM_BITTIMING H, SC_MSG_DT_BITTIMING H, SC_MSG_FEATURES H, SC_MSG_BUS H]"

text \<open>A command whose declared length is below the size of the structure that its
  case casts the message to.\<close>

definition sc_cmd_too_short :: "supercan \<Rightarrow> u8 \<Rightarrow> nat \<Rightarrow> bool" where
  "sc_cmd_too_short H msg_id msg_len =
     ((msg_id = SC_MSG_NM_BITTIMING H \<and> msg_len < sizeof_sc_msg_bittiming H)
      \<or> (msg_id = SC_MSG_DT_BITTIMING H \<and> msg_len < sizeof_sc_msg_bittiming H)
      \<or> (msg_id = SC_MSG_FEATURES H \<and> msg_len < sizeof_sc_msg_features H)
      \<or> (msg_id = SC_MSG_BUS H \<and> msg_len < sizeof_sc_msg_config H))"

definition sc_cmd_unknown :: "supercan \<Rightarrow> u8 \<Rightarrow> bool" where
  "sc_cmd_unknown H msg_id =
     (msg_id \<notin> set [SC_MSG_EOF H, SC_MSG_HELLO_DEVICE H, SC_MSG_DEVICE_INFO H,
                     SC_MSG_CAN_INFO H, SC_MSG_NM_BITTIMING H, SC_MSG_DT_BITTIMING H,
                     SC_MSG_FEATURES H, SC_MSG_BUS H])"

text \<open>Every reply of the command channel fits an empty command bank, and a TXR fits an
  empty CAN-data bank whose size is within the 16-bit offsets.\<close>

definition cmd_sizes_fit :: "supercan \<Rightarrow> bool" where
  "cmd_sizes_fit H = (sizeof_sc_msg_error H \<le> CMD_BUFFER_SIZE H
     \<and> sizeof_sc_msg_dev_info H \<le> CMD_BUFFER_SIZE H
     \<and> sizeof_sc_msg_can_info H \<le> CMD_BUFFER_SIZE H)"

definition can_sizes_fit :: "supercan \<Rightarrow> bool" where
  "can_sizes_fit H = (sizeof_sc_msg_can_txr H \<le> MSG_BUFFER_SIZE H
     \<and> MSG_BUFFER_SIZE H \<le> 65532)"

text \<open>
  Notions for the message loops of the two OUT endpoints. At offset \<open>p\<close> of a receive
  buffer with \<open>in_end\<close> received bytes, the data is malformed when the header is cut
  off or declares a length that reaches past the received bytes; it is a terminator when
  the whole header was received and its id or its length is zero. A state extends another
  when its effects are those of the other followed by more.
\<close>

definition sc_msg_malformed :: "u8 list \<Rightarrow> nat \<Rightarrow> nat \<Rightarrow> bool" where
  "sc_msg_malformed buf in_end p =
     (in_end < p + SC_MSG_HEADER_LEN \<or> in_end < p + unat (buf ! (p + 1)))"

definition sc_msg_terminator :: "u8 list \<Rightarrow> nat \<Rightarrow> nat \<Rightarrow> bool" where
  "sc_msg_terminator buf in_end p =
     (p + SC_MSG_HEADER_LEN \<le> in_end \<and> (buf ! p = 0 \<or> buf ! (p + 1) = 0))"

definition effects_extend :: "device \<Rightarrow> device \<Rightarrow> bool" where
  "effects_extend s s' = (\<exists>es. effects s' = effects s @ es)"

section \<open>Concrete inputs used to exercise the theorems\<close>

definition example_frame :: "u32 \<Rightarrow> can_rx_fifo_element" where
  "example_frame ident =
     \<lparr>R0 = \<lparr>R0_ID = ident, R0_RTR = False, R0_XTD = False\<rparr>,
      R1 = \<lparr>R1_DLC = 0, R1_BRS = False, R1_FDF = False\<rparr>,
      data = (\<lambda>k. 0)\<rparr>"

definition example_rx_fifo :: "nat \<Rightarrow> can_rx_fifo_element" where
  "example_rx_fifo n = example_frame (of_nat n)"

definition example_tsv :: "nat \<Rightarrow> u32" where
  "example_tsv n = 0"

definition example_tsv' :: "nat \<Rightarrow> u32" where
  "example_tsv' n = 7"

definition example_rx_frame :: rx_frame where
  "example_rx_frame =
     \<lparr>f_R0 = \<lparr>R0_ID = 0, R0_RTR = False, R0_XTD = False\<rparr>,
      f_R1 = \<lparr>R1_DLC = 0, R1_BRS = False, R1_FDF = False\<rparr>,
      f_ts = 0, f_data = (\<lambda>k. 0)\<rparr>"

definition example_tx_frame :: tx_frame where
  "example_tx_frame =
     \<lparr>t_T0 = \<lparr>T0_ESI = False, T0_XTD = False, T0_RTR = False\<rparr>,
      t_T1 = \<lparr>T1_DLC = 0, T1_BRS = False, T1_FDF = False, T1_MM = 0\<rparr>,
      t_ts = 0\<rparr>"

definition example_can_status :: can_status where
  "example_can_status =
     \<lparr>s_type = 0, s_payload = 0, s_ts = 0, s_tx = False, s_data_part = False\<rparr>"

text \<open>A channel at 1 Mbit/s nominal (1 us per bit), with empty rings.\<close>

definition example_can :: can where
  "example_can =
     \<lparr>enabled = True, features = 0, tx_available = 32, tx_dropped = 0, desync = False,
      rx_lost = 0, int_comm_flags = 0,
      rx_put_index = 0, rx_get_index = 0, tx_put_index = 0, tx_get_index = 0,
      status_put_index = 0, status_get_index = 0,
      rx_frames = (\<lambda>n. example_rx_frame), tx_frames = (\<lambda>n. example_tx_frame),
      status_fifo = (\<lambda>n. example_can_status),
      nm_us_per_bit = 1, dt_us_per_bit_factor_shift8 = 0\<rparr>"

text \<open>Two polls that deliver 40 frames with the identifiers 0 to 39: a full FIFO of 32
  frames, then 8 more.\<close>

definition example_rx_fifo2 :: "nat \<Rightarrow> can_rx_fifo_element" where
  "example_rx_fifo2 n = example_frame (of_nat (32 + n))"

definition example_polls :: "rx_poll list" where
  "example_polls =
     [\<lparr>hw_rx_fifo = example_rx_fifo, RXF0S_F0FL = 32, RXF0S_F0GI = 0, poll_tsc = 5000,
       poll_tsv = example_tsv\<rparr>,
      \<lparr>hw_rx_fifo = example_rx_fifo2, RXF0S_F0FL = 8, RXF0S_F0GI = 0, poll_tsc = 9000,
       poll_tsv = example_tsv\<rparr>]"

text \<open>
  A configuration for the parameters: message ids, error codes and flags with distinct
  values, a 64-byte command buffer, a 512-byte message buffer on a 64-byte endpoint,
  rings of 32 entries, and a little-endian layout of the host's structures.
\<close>

definition example_as_bittiming :: "u8 list \<Rightarrow> sc_can_bit_timing" where
  "example_as_bittiming msg =
     \<lparr>brp = ucast (msg ! 4) + 256 * ucast (msg ! 5),
      tseg1 = ucast (msg ! 6) + 256 * ucast (msg ! 7),
      tseg2 = msg ! 3, sjw = msg ! 2\<rparr>"

definition example_as_features :: "u8 list \<Rightarrow> sc_msg_features" where
  "example_as_features msg =
     \<lparr>feat_op = msg ! 2,
      feat_arg = ucast (msg ! 4) + 256 * ucast (msg ! 5) + 65536 * ucast (msg ! 6)
                 + 16777216 * ucast (msg ! 7)\<rparr>"

definition example_as_config :: "u8 list \<Rightarrow> sc_msg_config" where
  "example_as_config msg = \<lparr>config_arg = ucast (msg ! 2) + 256 * ucast (msg ! 3)\<rparr>"

definition example_as_can_tx :: "u8 list \<Rightarrow> sc_msg_can_tx" where
  "example_as_can_tx msg =
     \<lparr>tx_dlc = msg ! 2, tx_flags = msg ! 3, tx_track_id = msg ! 4,
      tx_can_id = ucast (msg ! 8) + 256 * ucast (msg ! 9) + 65536 * ucast (msg ! 10)
                  + 16777216 * ucast (msg ! 11),
      tx_data = (\<lambda>k. msg ! (12 + k))\<rparr>"

definition example_nm_range :: sc_can_bit_timing_range where
  "example_nm_range =
     \<lparr>bt_min = \<lparr>brp = 1, tseg1 = 2, tseg2 = 2, sjw = 1\<rparr>,
      bt_max = \<lparr>brp = 512, tseg1 = 256, tseg2 = 128, sjw = 128\<rparr>\<rparr>"

definition example_dt_range :: sc_can_bit_timing_range where
  "example_dt_range =
     \<lparr>bt_min = \<lparr>brp = 1, tseg1 = 1, tseg2 = 1, sjw = 1\<rparr>,
      bt_max = \<lparr>brp = 32, tseg1 = 32, tseg2 = 16, sjw = 16\<rparr>\<rparr>"

definition example_supercan :: supercan where
  "example_supercan =
     \<lparr>SC_MSG_EOF = 0, SC_MSG_HELLO_DEVICE = 1, SC_MSG_DEVICE_INFO = 3, SC_MSG_CAN_INFO = 4,
      SC_MSG_NM_BITTIMING = 6, SC_MSG_DT_BITTIMING = 7, SC_MSG_FEATURES = 8, SC_MSG_BUS = 9,
      SC_MSG_CAN_TX = 18,
      SC_ERROR_NONE = 0, SC_CAN_ERROR_NONE = 0, SC_ERROR_SHORT = 255, SC_ERROR_PARAM = 254,
      SC_ERROR_UNSUPPORTED = 252,
      SC_FEAT_OP_CLEAR = 0, SC_FEAT_OP_OR = 1,
      SC_FEATURE_FLAG_MON_MODE = 32, SC_FEATURE_FLAG_RES_MODE = 64,
      SC_FEATURE_FLAG_EXT_LOOP_MODE = 128,
      SC_CAN_FRAME_FLAG_EXT = 1, SC_CAN_FRAME_FLAG_RTR = 2, SC_CAN_FRAME_FLAG_FDF = 4,
      SC_CAN_FRAME_FLAG_BRS = 8, SC_CAN_FRAME_FLAG_ESI = 16, SC_CAN_FRAME_FLAG_DRP = 32,
      SC_CAN_STATUS_FLAG_TXR_DESYNC = 1,
      SC_CAN_ERROR_FLAG_RXTX_TX = 1, SC_CAN_ERROR_FLAG_NMDT_DT = 2,
      CAN_STATUS_FIFO_TYPE_BUS_STATUS = 0, CAN_STATUS_FIFO_TYPE_BUS_ERROR = 1,
      sizeof_sc_msg_hello = 8, sizeof_sc_msg_dev_info = 56, sizeof_sc_msg_can_info = 36,
      sizeof_sc_msg_bittiming = 8, sizeof_sc_msg_features = 8, sizeof_sc_msg_config = 4,
      sizeof_sc_msg_error = 4, sizeof_sc_msg_can_tx = 12, sizeof_sc_msg_can_txr = 8,
      sizeof_sc_msg_can_status = 20, sizeof_sc_msg_can_rx = 12, sizeof_sc_msg_can_error = 8,
      SC_MSG_CAN_LEN_MULTIPLE = 4,
      CMD_BUFFER_SIZE = 64, MSG_BUFFER_SIZE = 512, SC_M1_EP_SIZE = 64,
      CAN_RX_FIFO_SIZE = 32, CAN_TX_FIFO_SIZE = 32, CAN_STATUS_FIFO_SIZE = 256,
      sc_board_can_feat_perm = 8, sc_board_can_feat_conf = 229,
      sc_board_can_nm_bit_timing_range = example_nm_range,
      sc_board_can_dt_bit_timing_range = example_dt_range,
      as_sc_msg_bittiming = example_as_bittiming,
      as_sc_msg_features = example_as_features,
      as_sc_msg_config = example_as_config,
      as_sc_msg_can_tx = example_as_can_tx,
      can_on = (\<lambda>c. c\<lparr>enabled := True\<rparr>),
      can_off = (\<lambda>c. c\<lparr>enabled := False\<rparr>),
      sc_board_can_reset = (\<lambda>c. c)\<rparr>"

text \<open>An endpoint with the given fill offsets of bank 0 (\<open>False\<close>) and bank 1
  (\<open>True\<close>), bank 0 active; and a device with two such endpoints.\<close>

definition example_ep :: "nat \<Rightarrow> nat \<Rightarrow> usb_ep" where
  "example_ep off0 off1 =
     \<lparr>tx_offsets = (\<lambda>b. if b then off1 else off0), tx_bank = False, rx_bank = False\<rparr>"

definition example_device :: "usb_ep \<Rightarrow> usb_ep \<Rightarrow> can \<Rightarrow> device" where
  "example_device cmd uc c = \<lparr>usb_cmd = cmd, usb_can = uc, cans_can = c, effects = []\<rparr>"

text \<open>A device with empty banks; one whose active command bank is full (64 bytes)
  while the other command bank is still in flight; and one whose active CAN-data bank is
  full while the other is in flight and no TX slot is free.\<close>

definition example_idle_device :: device where
  "example_idle_device = example_device (example_ep 0 0) (example_ep 0 0) example_can"

definition example_cmd_full_device :: device where
  "example_cmd_full_device = example_device (example_ep 64 4) (example_ep 0 0) example_can"

definition example_can_full_device :: device where
  "example_can_full_device =
     example_device (example_ep 0 0) (example_ep 508 8) (example_can\<lparr>tx_available := 0\<rparr>)"

text \<open>Registers as the task may read them: an empty hardware TX FIFO at put index 0,
  no errors counted, the microsecond counter at 1000.\<close>

definition example_hw :: hw_regs where
  "example_hw = \<lparr>TXFQS_TFQPI = 0, TXFQS_TFFL = 0, ECR_TEC = 0, ECR_REC = 0, hw_F0FL = 0,
                 counter_1MHz = 1000\<rparr>"

section \<open>Properties of the bit counts\<close>

declare rx_ts_loop.simps [simp del]
declare rx_store_loop.simps [simp del]

lemma crc_bits_cases: "crc_bits dlc = (if dlc \<le> 10 then 26 else 31)"
  by (simp add: crc_bits_def)

text \<open>
  Claim C8, as the code has it. For every FD frame the bit count that \<open>can_frame_bits\<close>
  returns (nominal plus data part) is a fixed overhead (53 bits with an extended
  identifier, 34 with a standard one), the payload bits, and a CRC term that is 26 bits
  (17 CRC + 4 stuff count and parity + 5 fixed stuff bits) when the DLC is at most 10 and
  31 bits (21 + 4 + 6) when the DLC is above 10. The claimed values 21, 25 and 27 do not
  occur.
\<close>

theorem can_frame_bits_fd_crc_term:
  assumes "fdf \<noteq> 0"
  shows "fst (can_frame_bits xtd rtr fdf brs dlc) + snd (can_frame_bits xtd rtr fdf brs dlc)
     = (if xtd \<noteq> 0 then 53 else 34) + ucast (dlc_to_len dlc) * 8
       + (if dlc \<le> 10 then 26 else 31)"
  using assms by (simp add: can_frame_bits_def crc_bits_def Let_def)

theorem can_frame_bits_fd_crc_term_witness:
  "(1::u32) \<noteq> 0 \<and>
   fst (can_frame_bits 0 0 1 1 15) + snd (can_frame_bits 0 0 1 1 15) = 34 + 64 * 8 + 31"
proof -
  have h: "(1::u32) \<noteq> 0" by simp
  have "dlc_to_len 15 = 64" by (simp add: dlc_to_len_def dlc_to_len_map_def)
  then show ?thesis
    using h can_frame_bits_fd_crc_term [OF h, of 0 0 1 15] by simp
qed

text \<open>
  The claim as stated fails for a short FD frame: with DLC 0 (no payload) and bit rate
  switching, the data-phase count is 1 (ESI) + 4 (DLC) + 0 + 26, so the CRC term is 26,
  which is neither 21 nor 25; for DLC 15 the term is 31, neither 25 nor 27.
\<close>

theorem can_frame_bits_fd_crc_term_counterexample:
  "snd (can_frame_bits 0 0 1 1 0) = 1 + 4 + ucast (dlc_to_len 0) * 8 + 26
   \<and> crc_bits 0 \<noteq> 21 \<and> crc_bits 0 \<noteq> 25
   \<and> snd (can_frame_bits 0 0 1 1 15) = 1 + 4 + ucast (dlc_to_len 15) * 8 + 31
   \<and> crc_bits 15 \<noteq> 25 \<and> crc_bits 15 \<noteq> 27"
  by (simp add: can_frame_bits_def crc_bits_def dlc_to_len_def dlc_to_len_map_def)

section \<open>Timestamp reconstruction\<close>

lemma and_mask_mod: "(x::nat) AND (2 ^ k - 1) = x mod 2 ^ k"
  by (metis mask_eq_exp_minus_1 take_bit_eq_mask take_bit_eq_mod)

lemma rx_slot_mod: "rx_slot (2 ^ k) gio j = (gio + j) mod 2 ^ k"
  unfolding rx_slot_def by (rule and_mask_mod)

lemma mod_add_inj_le:
  fixes m :: nat
  assumes "j \<le> j'" "j' < m" "(g + j) mod m = (g + j') mod m"
  shows "j = j'"
proof -
  have le: "g + j \<le> g + j'" using assms(1) by simp
  have "m dvd (g + j') - (g + j)"
    by (rule mod_eq_dvd_iff_nat [THEN iffD1, OF le assms(3) [symmetric]])
  then have "m dvd j' - j" by simp
  moreover have "j' - j < m" using assms(2) by simp
  ultimately have "j' - j = 0" by (meson nat_dvd_not_less not_gr_zero)
  thus ?thesis using assms(1) by simp
qed

lemma mod_add_inj:
  fixes m :: nat
  assumes "j < m" "j' < m" "(g + j) mod m = (g + j') mod m"
  shows "j = j'"
proof (cases "j \<le> j'")
  case True
  thus ?thesis using assms mod_add_inj_le by blast
next
  case False
  then have "j' \<le> j" by simp
  thus ?thesis using assms mod_add_inj_le [of j' j m g] by simp
qed

lemma rx_slot_inj:
  assumes "j < count" "j' < count" "count \<le> 2 ^ k"
    and "rx_slot (2 ^ k) gio j = rx_slot (2 ^ k) gio j'"
  shows "j = j'"
  using assms mod_add_inj [of j "2 ^ k" j' gio] by (simp add: rx_slot_mod)

lemma CLOCK_MAX_minus_1: "CLOCK_MAX = - 1"
  by (simp add: CLOCK_MAX_def)

lemma and_CLOCK_MAX [simp]: "ts AND CLOCK_MAX = ts"
  by (simp add: CLOCK_MAX_minus_1)

lemma rx_ts_loop_step:
  "i < count \<Longrightarrow>
   rx_ts_loop fs can fifo gio count i ts tsv =
   rx_ts_loop fs can fifo gio count (Suc i)
     (ts - rx_element_time_us can (fifo (rx_slot fs gio (count - 1 - i))))
     (tsv(rx_slot fs gio (count - 1 - i) := ts))"
  by (subst rx_ts_loop.simps) (simp add: Let_def rx_slot_def)

lemma rx_ts_loop_done:
  "\<not> i < count \<Longrightarrow> rx_ts_loop fs can fifo gio count i ts tsv = tsv"
  by (subst rx_ts_loop.simps) simp

text \<open>slots written by iterations i..count-1 are rx_slot (count-1-i')\<close>

lemma rx_ts_loop_other:
  "(\<And>i'. i \<le> i' \<Longrightarrow> i' < count \<Longrightarrow> rx_slot fs gio (count - 1 - i') \<noteq> x)
   \<Longrightarrow> rx_ts_loop fs can fifo gio count i ts tsv x = tsv x"
proof (induction "count - i" arbitrary: i ts tsv)
  case 0
  then show ?case by (simp add: rx_ts_loop_done)
next
  case (Suc n)
  then have lt: "i < count" by simp
  have ne: "rx_slot fs gio (count - 1 - i) \<noteq> x" using Suc.prems lt by simp
  have n: "n = count - Suc i" using Suc.hyps(2) by simp
  have "rx_ts_loop fs can fifo gio count (Suc i)
     (ts - rx_element_time_us can (fifo (rx_slot fs gio (count - 1 - i))))
     (tsv(rx_slot fs gio (count - 1 - i) := ts)) x = (tsv(rx_slot fs gio (count - 1 - i) := ts)) x"
    by (rule Suc.hyps(1) [OF n]) (use Suc.prems in simp)
  then show ?case using ne by (simp add: rx_ts_loop_step [OF lt])
qed

text \<open>the slot written at iteration i keeps its value\<close>
lemma rx_ts_loop_first:
  assumes "i < count" "count \<le> 2 ^ k"
  shows "rx_ts_loop (2 ^ k) can fifo gio count i ts tsv (rx_slot (2 ^ k) gio (count - 1 - i)) = ts"
proof -
  have "rx_ts_loop (2 ^ k) can fifo gio count (Suc i)
     (ts - rx_element_time_us can (fifo (rx_slot (2 ^ k) gio (count - 1 - i))))
     (tsv(rx_slot (2 ^ k) gio (count - 1 - i) := ts)) (rx_slot (2 ^ k) gio (count - 1 - i))
    = (tsv(rx_slot (2 ^ k) gio (count - 1 - i) := ts)) (rx_slot (2 ^ k) gio (count - 1 - i))"
  proof (rule rx_ts_loop_other)
    fix i' assume a: "Suc i \<le> i'" "i' < count"
    show "rx_slot (2 ^ k) gio (count - 1 - i') \<noteq> rx_slot (2 ^ k) gio (count - 1 - i)"
    proof
      assume "rx_slot (2 ^ k) gio (count - 1 - i') = rx_slot (2 ^ k) gio (count - 1 - i)"
      then have "count - 1 - i' = count - 1 - i"
        using rx_slot_inj [of "count - 1 - i'" count "count - 1 - i" k gio] a assms by simp
      thus False using a assms by simp
    qed
  qed
  thus ?thesis by (simp add: rx_ts_loop_step [OF assms(1)])
qed

text \<open>recurrence\<close>
lemma rx_ts_loop_rec:
  assumes "count \<le> 2 ^ k"
  shows "i \<le> i' \<Longrightarrow> Suc i' < count \<Longrightarrow>
    rx_ts_loop (2 ^ k) can fifo gio count i ts tsv (rx_slot (2 ^ k) gio (count - 2 - i'))
    = rx_ts_loop (2 ^ k) can fifo gio count i ts tsv (rx_slot (2 ^ k) gio (count - 1 - i'))
      - rx_element_time_us can (fifo (rx_slot (2 ^ k) gio (count - 1 - i')))"
proof (induction "i' - i" arbitrary: i ts tsv)
  case 0
  then have e: "i' = i" by simp
  have lt: "i < count" using 0 by simp
  have lt': "Suc i < count" using 0 e by simp
  have a: "rx_ts_loop (2 ^ k) can fifo gio count i ts tsv (rx_slot (2 ^ k) gio (count - 1 - i)) = ts"
    by (rule rx_ts_loop_first [OF lt assms])
  have "rx_ts_loop (2 ^ k) can fifo gio count (Suc i)
     (ts - rx_element_time_us can (fifo (rx_slot (2 ^ k) gio (count - 1 - i))))
     (tsv(rx_slot (2 ^ k) gio (count - 1 - i) := ts)) (rx_slot (2 ^ k) gio (count - 1 - Suc i))
     = ts - rx_element_time_us can (fifo (rx_slot (2 ^ k) gio (count - 1 - i)))"
    by (rule rx_ts_loop_first [OF lt' assms])
  then have b: "rx_ts_loop (2 ^ k) can fifo gio count i ts tsv (rx_slot (2 ^ k) gio (count - 2 - i))
     = ts - rx_element_time_us can (fifo (rx_slot (2 ^ k) gio (count - 1 - i)))"
    by (simp add: rx_ts_loop_step [OF lt])
  show ?case using a b e by simp
next
  case (Suc n)
  then have lt: "i < count" by simp
  have n: "n = i' - Suc i" using Suc.hyps(2) by simp
  have le: "Suc i \<le> i'" using Suc.hyps(2) by simp
  show ?case
    using Suc.hyps(1) [OF n le Suc.prems(2)] by (simp add: rx_ts_loop_step [OF lt])
qed


lemma rx_timestamps_youngest:
  assumes "0 < count" "count \<le> 2 ^ k"
  shows "rx_timestamps (2 ^ k) can fifo gio count tsc tsv (rx_slot (2 ^ k) gio (count - 1)) = tsc"
  using rx_ts_loop_first [of 0 count k can fifo gio tsc tsv] assms
  by (simp add: rx_timestamps_def)

lemma rx_timestamps_rec:
  assumes "count \<le> 2 ^ k" "Suc j < count"
  shows "rx_timestamps (2 ^ k) can fifo gio count tsc tsv (rx_slot (2 ^ k) gio j)
       = rx_timestamps (2 ^ k) can fifo gio count tsc tsv (rx_slot (2 ^ k) gio (Suc j))
         - rx_element_time_us can (fifo (rx_slot (2 ^ k) gio (Suc j)))"
proof -
  define i' where "i' = count - 2 - j"
  have a: "count - 2 - i' = j" using assms(2) by (simp add: i'_def)
  have b: "count - 1 - i' = Suc j" using assms(2) by (simp add: i'_def)
  have c: "Suc i' < count" using assms(2) by (simp add: i'_def)
  note r = rx_ts_loop_rec [OF assms(1) le0 c, of can fifo gio tsc tsv, unfolded a b]
  show ?thesis unfolding rx_timestamps_def by (rule r)
qed

lemma backward_seq_eq:
  fixes T T' :: "nat \<Rightarrow> u32"
  assumes "T (count - 1) = T' (count - 1)"
    and "\<And>j. Suc j < count \<Longrightarrow> T j = T (Suc j) - D (Suc j)"
    and "\<And>j. Suc j < count \<Longrightarrow> T' j = T' (Suc j) - D (Suc j)"
  shows "j < count \<Longrightarrow> T j = T' j"
proof (induction "count - 1 - j" arbitrary: j)
  case 0
  then have "j = count - 1" by simp
  thus ?case using assms(1) by simp
next
  case (Suc n)
  then have lt: "Suc j < count" by simp
  have "T (Suc j) = T' (Suc j)"
    by (rule Suc.hyps(1)) (use Suc.hyps(2) lt in simp_all)
  thus ?case using assms(2) [OF lt] assms(3) [OF lt] by simp
qed

lemma backward_seq_nowrap:
  fixes T D :: "nat \<Rightarrow> u32"
  assumes "T (count - 1) = tsc"
    and "\<And>j. Suc j < count \<Longrightarrow> T j = T (Suc j) - D (Suc j)"
    and "(\<Sum>m = 1..<count. unat (D m)) \<le> unat tsc"
  shows "j < count \<Longrightarrow> unat (T j) + (\<Sum>m = Suc j..<count. unat (D m)) = unat tsc"
proof (induction "count - 1 - j" arbitrary: j)
  case 0
  then have "j = count - 1" by simp
  thus ?case using assms(1) 0 by simp
next
  case (Suc n)
  then have lt: "Suc j < count" by simp
  have ih: "unat (T (Suc j)) + (\<Sum>m = Suc (Suc j)..<count. unat (D m)) = unat tsc"
    by (rule Suc.hyps(1)) (use Suc.hyps(2) lt in simp_all)
  have split: "(\<Sum>m = Suc j..<count. unat (D m))
       = unat (D (Suc j)) + (\<Sum>m = Suc (Suc j)..<count. unat (D m))"
    using lt by (simp add: sum.atLeast_Suc_lessThan)
  have "(\<Sum>m = Suc j..<count. unat (D m)) \<le> (\<Sum>m = 1..<count. unat (D m))"
    by (rule sum_mono2) auto
  then have bound: "unat (D (Suc j)) + (\<Sum>m = Suc (Suc j)..<count. unat (D m)) \<le> unat tsc"
    using assms(3) split by simp
  then have "unat (D (Suc j)) \<le> unat (T (Suc j))" using ih by simp
  then have "D (Suc j) \<le> T (Suc j)" by (simp add: word_le_nat_alt)
  then have "unat (T (Suc j) - D (Suc j)) = unat (T (Suc j)) - unat (D (Suc j))"
    by (rule unat_sub)
  then have "unat (T j) = unat (T (Suc j)) - unat (D (Suc j))"
    using assms(2) [OF lt] by simp
  thus ?case using split ih bound by simp
qed

lemma backward_seq_mono:
  fixes T D :: "nat \<Rightarrow> u32"
  assumes "T (count - 1) = tsc"
    and "\<And>j. Suc j < count \<Longrightarrow> T j = T (Suc j) - D (Suc j)"
    and "(\<Sum>m = 1..<count. unat (D m)) \<le> unat tsc"
    and "j \<le> j'" "j' < count"
  shows "T j \<le> T j'"
proof -
  have a: "unat (T j) + (\<Sum>m = Suc j..<count. unat (D m)) = unat tsc"
    by (rule backward_seq_nowrap [OF assms(1,2,3)]) (use assms in simp_all)
  have b: "unat (T j') + (\<Sum>m = Suc j'..<count. unat (D m)) = unat tsc"
    by (rule backward_seq_nowrap [OF assms(1,2,3)]) (use assms in simp_all)
  have "(\<Sum>m = Suc j'..<count. unat (D m)) \<le> (\<Sum>m = Suc j..<count. unat (D m))"
    by (rule sum_mono2) (use assms(4) in auto)
  then have "unat (T j) \<le> unat (T j')" using a b by linarith
  thus ?thesis by (simp add: word_le_nat_alt)
qed


lemma rx_timestamps_tsv_indep:
  assumes "0 < count" "count \<le> 2 ^ k" "j < count"
  shows "rx_timestamps (2 ^ k) can fifo gio count tsc tsv' (rx_slot (2 ^ k) gio j)
       = rx_timestamps (2 ^ k) can fifo gio count tsc tsv (rx_slot (2 ^ k) gio j)"
proof -
  let ?T = "\<lambda>v j. rx_timestamps (2 ^ k) can fifo gio count tsc v (rx_slot (2 ^ k) gio j)"
  let ?D = "\<lambda>m. rx_element_time_us can (fifo (rx_slot (2 ^ k) gio m))"
  have top: "?T tsv' (count - 1) = ?T tsv (count - 1)"
    using rx_timestamps_youngest [OF assms(1,2)] by simp
  have r1: "\<And>m. Suc m < count \<Longrightarrow> ?T tsv' m = ?T tsv' (Suc m) - ?D (Suc m)"
    by (rule rx_timestamps_rec [OF assms(2)])
  have r2: "\<And>m. Suc m < count \<Longrightarrow> ?T tsv m = ?T tsv (Suc m) - ?D (Suc m)"
    by (rule rx_timestamps_rec [OF assms(2)])
  show ?thesis
    by (rule backward_seq_eq [of "?T tsv'" count "?T tsv" ?D j, OF top r1 r2 assms(3)])
qed

lemma rx_timestamps_mono:
  assumes "0 < count" "count \<le> 2 ^ k"
    and "(\<Sum>m = 1..<count. unat (rx_element_time_us can (fifo (rx_slot (2 ^ k) gio m)))) \<le> unat tsc"
    and "j \<le> j'" "j' < count"
  shows "rx_timestamps (2 ^ k) can fifo gio count tsc tsv (rx_slot (2 ^ k) gio j)
       \<le> rx_timestamps (2 ^ k) can fifo gio count tsc tsv (rx_slot (2 ^ k) gio j')"
proof -
  let ?T = "\<lambda>j. rx_timestamps (2 ^ k) can fifo gio count tsc tsv (rx_slot (2 ^ k) gio j)"
  let ?D = "\<lambda>m. rx_element_time_us can (fifo (rx_slot (2 ^ k) gio m))"
  have top: "?T (count - 1) = tsc"
    by (rule rx_timestamps_youngest [OF assms(1,2)])
  have r: "\<And>m. Suc m < count \<Longrightarrow> ?T m = ?T (Suc m) - ?D (Suc m)"
    by (rule rx_timestamps_rec [OF assms(2)])
  show ?thesis
    by (rule backward_seq_mono [of ?T count tsc ?D j j', OF top r assms(3,4,5)])
qed

lemma example_frame_time: "rx_element_time_us example_can (example_rx_fifo n) = 46"
  by (simp add: rx_element_time_us_def example_rx_fifo_def example_frame_def example_can_def
      can_frame_bits_def can_frame_time_us_def dlc_to_len_def dlc_to_len_map_def)

text \<open>
  Claim C1, amended. For a batch of \<open>count\<close> frames (at least one, at most the FIFO
  size, a power of two) drained with batch time \<open>tsc\<close>, where \<open>rx_slot j\<close> is the FIFO
  slot of the \<open>j\<close>-th frame in arrival order:
  the youngest frame gets \<open>tsc\<close>; each earlier frame gets the timestamp of the
  frame after it minus that later frame's duration, in 32-bit wrap-around arithmetic;
  the timestamps of the batch do not depend on what the uninitialised local array held
  (two runs on the same batch and \<open>tsc\<close> agree); and they are non-decreasing in arrival
  order whenever the durations of all frames after the oldest sum to at most \<open>tsc\<close>,
  that is, whenever the 32-bit microsecond clock does not wrap inside the batch.
\<close>

theorem rx_timestamp_reconstruction:
  assumes "0 < count" and "count \<le> 2 ^ k"
  shows "rx_timestamps (2 ^ k) can fifo gio count tsc tsv (rx_slot (2 ^ k) gio (count - 1)) = tsc
    \<and> (\<forall>j. Suc j < count \<longrightarrow>
          rx_timestamps (2 ^ k) can fifo gio count tsc tsv (rx_slot (2 ^ k) gio j)
          = rx_timestamps (2 ^ k) can fifo gio count tsc tsv (rx_slot (2 ^ k) gio (Suc j))
            - rx_element_time_us can (fifo (rx_slot (2 ^ k) gio (Suc j))))
    \<and> (\<forall>j < count.
          rx_timestamps (2 ^ k) can fifo gio count tsc tsv' (rx_slot (2 ^ k) gio j)
          = rx_timestamps (2 ^ k) can fifo gio count tsc tsv (rx_slot (2 ^ k) gio j))
    \<and> ((\<Sum>m = 1..<count. unat (rx_element_time_us can (fifo (rx_slot (2 ^ k) gio m))))
          \<le> unat tsc \<longrightarrow>
        (\<forall>j j'. j \<le> j' \<and> j' < count \<longrightarrow>
          rx_timestamps (2 ^ k) can fifo gio count tsc tsv (rx_slot (2 ^ k) gio j)
          \<le> rx_timestamps (2 ^ k) can fifo gio count tsc tsv (rx_slot (2 ^ k) gio j')))"
proof (intro conjI allI impI)
  show "rx_timestamps (2 ^ k) can fifo gio count tsc tsv (rx_slot (2 ^ k) gio (count - 1)) = tsc"
    by (rule rx_timestamps_youngest [OF assms])
next
  fix j assume "Suc j < count"
  then show "rx_timestamps (2 ^ k) can fifo gio count tsc tsv (rx_slot (2 ^ k) gio j)
      = rx_timestamps (2 ^ k) can fifo gio count tsc tsv (rx_slot (2 ^ k) gio (Suc j))
        - rx_element_time_us can (fifo (rx_slot (2 ^ k) gio (Suc j)))"
    by (rule rx_timestamps_rec [OF assms(2)])
next
  fix j assume "j < count"
  then show "rx_timestamps (2 ^ k) can fifo gio count tsc tsv' (rx_slot (2 ^ k) gio j)
      = rx_timestamps (2 ^ k) can fifo gio count tsc tsv (rx_slot (2 ^ k) gio j)"
    by (rule rx_timestamps_tsv_indep [OF assms])
next
  fix j j'
  assume s: "(\<Sum>m = 1..<count. unat (rx_element_time_us can (fifo (rx_slot (2 ^ k) gio m))))
          \<le> unat tsc"
    and j: "j \<le> j' \<and> j' < count"
  show "rx_timestamps (2 ^ k) can fifo gio count tsc tsv (rx_slot (2 ^ k) gio j)
      \<le> rx_timestamps (2 ^ k) can fifo gio count tsc tsv (rx_slot (2 ^ k) gio j')"
    by (rule rx_timestamps_mono [OF assms s]) (use j in simp_all)
qed

theorem rx_timestamp_reconstruction_witness:
  "(0::nat) < 2 \<and> (2::nat) \<le> 2 ^ 5
   \<and> rx_timestamps (2 ^ 5) example_can example_rx_fifo 31 2 1000 example_tsv
        (rx_slot (2 ^ 5) 31 1) = 1000
   \<and> rx_timestamps (2 ^ 5) example_can example_rx_fifo 31 2 1000 example_tsv
        (rx_slot (2 ^ 5) 31 0) = 1000 - 46
   \<and> rx_timestamps (2 ^ 5) example_can example_rx_fifo 31 2 1000 example_tsv'
        (rx_slot (2 ^ 5) 31 0)
     = rx_timestamps (2 ^ 5) example_can example_rx_fifo 31 2 1000 example_tsv
        (rx_slot (2 ^ 5) 31 0)
   \<and> (\<Sum>m = 1..<2. unat (rx_element_time_us example_can
          (example_rx_fifo (rx_slot (2 ^ 5) 31 m)))) \<le> unat (1000 :: u32)
   \<and> rx_timestamps (2 ^ 5) example_can example_rx_fifo 31 2 1000 example_tsv
        (rx_slot (2 ^ 5) 31 0)
     \<le> rx_timestamps (2 ^ 5) example_can example_rx_fifo 31 2 1000 example_tsv
        (rx_slot (2 ^ 5) 31 1)"
proof -
  have h1: "(0::nat) < 2" by simp
  have h2: "(2::nat) \<le> 2 ^ 5" by simp
  have h3: "Suc 0 < 2" by simp
  have s: "(\<Sum>m = 1..<2. unat (rx_element_time_us example_can
          (example_rx_fifo (rx_slot (2 ^ 5) 31 m)))) \<le> unat (1000 :: u32)"
    by (simp add: example_frame_time)
  note t = rx_timestamp_reconstruction [OF h1 h2, of example_can example_rx_fifo 31 1000
      example_tsv example_tsv']
  from t have a: "rx_timestamps (2 ^ 5) example_can example_rx_fifo 31 2 1000 example_tsv
        (rx_slot (2 ^ 5) 31 1) = 1000" by simp
  from t have "rx_timestamps (2 ^ 5) example_can example_rx_fifo 31 2 1000 example_tsv
        (rx_slot (2 ^ 5) 31 0)
      = rx_timestamps (2 ^ 5) example_can example_rx_fifo 31 2 1000 example_tsv
        (rx_slot (2 ^ 5) 31 (Suc 0))
        - rx_element_time_us example_can (example_rx_fifo (rx_slot (2 ^ 5) 31 (Suc 0)))"
    using h3 by blast
  then have b: "rx_timestamps (2 ^ 5) example_can example_rx_fifo 31 2 1000 example_tsv
        (rx_slot (2 ^ 5) 31 0) = 1000 - 46"
    using a by (simp add: example_frame_time)
  from t have c: "rx_timestamps (2 ^ 5) example_can example_rx_fifo 31 2 1000 example_tsv'
        (rx_slot (2 ^ 5) 31 0)
     = rx_timestamps (2 ^ 5) example_can example_rx_fifo 31 2 1000 example_tsv
        (rx_slot (2 ^ 5) 31 0)" by simp
  from t s have m: "\<forall>j j'. j \<le> j' \<and> j' < 2 \<longrightarrow>
      rx_timestamps (2 ^ 5) example_can example_rx_fifo 31 2 1000 example_tsv
        (rx_slot (2 ^ 5) 31 j)
      \<le> rx_timestamps (2 ^ 5) example_can example_rx_fifo 31 2 1000 example_tsv
        (rx_slot (2 ^ 5) 31 j')" by blast
  have "(0::nat) \<le> 1 \<and> (1::nat) < 2" by simp
  with m have d: "rx_timestamps (2 ^ 5) example_can example_rx_fifo 31 2 1000 example_tsv
        (rx_slot (2 ^ 5) 31 0)
     \<le> rx_timestamps (2 ^ 5) example_can example_rx_fifo 31 2 1000 example_tsv
        (rx_slot (2 ^ 5) 31 1)" by blast
  show ?thesis using h1 h2 a b c s d by blast
qed

text \<open>
  The claim as stated fails when the clock has just wrapped: a batch of two frames of 46
  us each, drained at \<open>tsc = 10\<close>. The older frame gets \<open>10 - 46\<close>, which is
  \<open>4294967260\<close> in 32 bits and so larger than the younger frame's timestamp 10.
\<close>

theorem rx_timestamp_reconstruction_counterexample:
  "rx_timestamps (2 ^ 5) example_can example_rx_fifo 0 2 10 example_tsv (rx_slot (2 ^ 5) 0 0)
     = 4294967260
   \<and> rx_timestamps (2 ^ 5) example_can example_rx_fifo 0 2 10 example_tsv (rx_slot (2 ^ 5) 0 1)
     = 10
   \<and> \<not> rx_timestamps (2 ^ 5) example_can example_rx_fifo 0 2 10 example_tsv (rx_slot (2 ^ 5) 0 0)
       \<le> rx_timestamps (2 ^ 5) example_can example_rx_fifo 0 2 10 example_tsv (rx_slot (2 ^ 5) 0 1)"
proof -
  have h1: "(0::nat) < 2" by simp
  have h2: "(2::nat) \<le> 2 ^ 5" by simp
  have h3: "Suc 0 < 2" by simp
  have a: "rx_timestamps (2 ^ 5) example_can example_rx_fifo 0 2 10 example_tsv
      (rx_slot (2 ^ 5) 0 1) = 10"
    using rx_timestamps_youngest [OF h1 h2, of example_can example_rx_fifo 0 10 example_tsv]
    by simp
  have b: "rx_timestamps (2 ^ 5) example_can example_rx_fifo 0 2 10 example_tsv
      (rx_slot (2 ^ 5) 0 0) = 4294967260"
    using rx_timestamps_rec [OF h2 h3, of example_can example_rx_fifo 0 10 example_tsv] a
    by (simp add: example_frame_time)
  show ?thesis unfolding a b by simp
qed

section \<open>The RX ring under overflow\<close>

text \<open>ring position of the n-th element after the get index\<close>

lemma ring_pos_mod:
  fixes g :: u8
  assumes "k \<le> 8"
  shows "unat (g + of_nat n) AND (2 ^ k - 1) = (unat g + n) mod 2 ^ k"
proof -
  have "unat (g + of_nat n) = (unat g + n) mod 2 ^ 8"
    by (simp add: unat_word_ariths unat_of_nat mod_add_right_eq)
  moreover have "(2::nat) ^ k dvd 2 ^ 8" using assms by (rule le_imp_power_dvd)
  ultimately have "unat (g + of_nat n) mod 2 ^ k = (unat g + n) mod 2 ^ k"
    by (simp add: mod_mod_cancel)
  thus ?thesis by (simp only: and_mask_mod)
qed

lemma ring_pos_inj:
  fixes g :: u8
  assumes "k \<le> 8" "j < 2 ^ k" "j' < 2 ^ k"
    and "unat (g + of_nat j) AND (2 ^ k - 1) = unat (g + of_nat j') AND (2 ^ k - 1)"
  shows "j = j'"
  using assms mod_add_inj [of j "2 ^ k" j' "unat g"] by (simp only: ring_pos_mod)

lemma rx_store_step_full:
  "unat (pi - rx_get_index c) = fs \<Longrightarrow>
   rx_store_step fs e ts (pi, ev, c) = Inr (pi, ev, can_inc_sat_rx_lost c)"
  by (simp add: rx_store_step_def)

lemma rx_store_step_room:
  "unat (pi - rx_get_index c) < fs \<Longrightarrow>
   rx_store_step fs e ts (pi, ev, c) =
     Inr (pi + 1, ev + 1,
          c\<lparr>rx_frames := (rx_frames c)
               (unat pi AND (fs - 1) := rx_frame_store (rx_frames c (unat pi AND (fs - 1))) e ts)\<rparr>)"
  by (simp add: rx_store_step_def Let_def)

lemma rx_frame_view_store: "rx_frame_view (rx_frame_store old e ts) = rx_arrival_view e ts"
  by (simp add: rx_frame_view_def rx_frame_store_def rx_arrival_view_def Let_def memcpy_def)

lemma rx_store_loop_step:
  "i < count \<Longrightarrow>
   rx_store_loop fs fifo tsv gio count i st =
     (case rx_store_step fs (fifo (rx_slot fs gio i)) (tsv (rx_slot fs gio i)) st of
        Inl h \<Rightarrow> Inl h
      | Inr st' \<Rightarrow> rx_store_loop fs fifo tsv gio count (Suc i) st')"
  by (subst rx_store_loop.simps) (simp add: Let_def rx_slot_def split: sum.split)

lemma rx_store_loop_done:
  "\<not> i < count \<Longrightarrow> rx_store_loop fs fifo tsv gio count i st = Inr st"
  by (subst rx_store_loop.simps) simp

lemma unat_used_suc:
  fixes pi g :: u8
  assumes "unat (pi - g) < fs" "fs \<le> 128"
  shows "unat (pi + 1 - g) = Suc (unat (pi - g))"
proof -
  have e: "pi + 1 - g = (pi - g) + 1" by simp
  have "unat ((pi - g) + 1) = unat (pi - g) + unat (1 :: u8)"
    by (rule unat_add_lem [THEN iffD1]) (use assms in simp)
  then show ?thesis unfolding e by simp
qed

text \<open>pi as get + used\<close>
lemma pi_as_get_plus_used:
  fixes pi g :: u8
  shows "pi = g + of_nat (unat (pi - g))"
  by simp

lemma can_inc_sat_rx_lost_unat:
  "unat (rx_lost (can_inc_sat_rx_lost c)) = min (Suc (unat (rx_lost c))) 65535"
proof (cases "rx_lost c = 0xffff")
  case True
  then show ?thesis by (simp add: can_inc_sat_rx_lost_def)
next
  case False
  have "rx_lost c = 0xffff" if a: "unat (rx_lost c) = 65535"
  proof -
    have "rx_lost c = of_nat (unat (rx_lost c))" by simp
    thus ?thesis unfolding a by simp
  qed
  with False have "unat (rx_lost c) \<noteq> 65535" by blast
  moreover have "unat (rx_lost c) < 65536" using unsigned_less [of "rx_lost c"] by simp
  ultimately have lt: "unat (rx_lost c) < 65535" by simp
  have "unat (rx_lost c + 1) = unat (rx_lost c) + unat (1 :: u16)"
    by (rule unat_add_lem [THEN iffD1]) (use lt in simp)
  then show ?thesis using False lt by (simp add: can_inc_sat_rx_lost_def)
qed


lemma rx_ring_pos_used:
  "unat pi AND (fs - 1) = rx_ring_pos fs c (unat (pi - rx_get_index c))"
  by (simp add: rx_ring_pos_def)

lemma rx_ring_pos_inj:
  assumes "k \<le> 8" "j < 2 ^ k" "j' < 2 ^ k"
    and "rx_ring_pos (2 ^ k) c j = rx_ring_pos (2 ^ k) c j'"
  shows "j = j'"
  using assms ring_pos_inj [of k j j' "rx_get_index c"] by (simp only: rx_ring_pos_def)

lemma rx_ring_pos_get_cong:
  "rx_get_index c' = rx_get_index c \<Longrightarrow> rx_ring_pos fs c' = rx_ring_pos fs c"
  by (rule ext) (simp add: rx_ring_pos_def)

lemma unat_u16_le: "unat (w :: u16) \<le> 65535"
  using unsigned_less [of w, where 'a = nat] by simp

lemma sat_arith1:
  "min (min (Suc l) 65535 + n) (65535::nat) = min (l + Suc n) 65535"
  by simp

lemma rx_store_loop_result:
  assumes k: "k \<le> 7"
  shows "unat (pi - rx_get_index c) \<le> 2 ^ k \<Longrightarrow> i \<le> count \<Longrightarrow>
     \<exists>pi' ev' c'. rx_store_loop (2 ^ k) fifo tsv gio count i (pi, ev, c) = Inr (pi', ev', c') \<and>
       rx_get_index c' = rx_get_index c \<and>
       rx_put_index c' = rx_put_index c \<and>
       nm_us_per_bit c' = nm_us_per_bit c \<and>
       dt_us_per_bit_factor_shift8 c' = dt_us_per_bit_factor_shift8 c \<and>
       unat (pi' - rx_get_index c) = min (unat (pi - rx_get_index c) + (count - i)) (2 ^ k) \<and>
       unat (rx_lost c') =
         min (unat (rx_lost c) + (unat (pi - rx_get_index c) + (count - i) - 2 ^ k)) 65535 \<and>
       (\<forall>j < unat (pi - rx_get_index c).
          rx_frames c' (rx_ring_pos (2 ^ k) c j) = rx_frames c (rx_ring_pos (2 ^ k) c j)) \<and>
       (\<forall>j. j < count - i \<and> unat (pi - rx_get_index c) + j < 2 ^ k \<longrightarrow>
          rx_frame_view (rx_frames c' (rx_ring_pos (2 ^ k) c (unat (pi - rx_get_index c) + j)))
          = rx_arrival_view (fifo (rx_slot (2 ^ k) gio (i + j))) (tsv (rx_slot (2 ^ k) gio (i + j))))"
proof (induction "count - i" arbitrary: i pi ev c)
  case 0
  then have "\<not> i < count" by simp
  then show ?case using 0 unat_u16_le [of "rx_lost c"] by (simp add: rx_store_loop_done)
next
  case (Suc n)
  then have lt: "i < count" by simp
  have n: "n = count - Suc i" using Suc.hyps(2) by simp
  have le: "Suc i \<le> count" using lt by simp
  have cnt: "count - i = Suc (count - Suc i)" using lt by simp
  define u where "u = unat (pi - rx_get_index c)"
  have k8: "k \<le> 8" using k by simp
  have fs128: "(2::nat) ^ k \<le> 128"
    using power_increasing [of k 7 "2::nat"] k by simp
  let ?e = "fifo (rx_slot (2 ^ k) gio i)"
  let ?t = "tsv (rx_slot (2 ^ k) gio i)"
  show ?case
  proof (cases "u = 2 ^ k")
    case True
    let ?c1 = "can_inc_sat_rx_lost c"
    have step: "rx_store_step (2 ^ k) ?e ?t (pi, ev, c) = Inr (pi, ev, ?c1)"
      using True by (simp add: rx_store_step_full u_def)
    have g1: "rx_get_index ?c1 = rx_get_index c" by (simp add: can_inc_sat_rx_lost_def)
    have p1: "rx_put_index ?c1 = rx_put_index c" by (simp add: can_inc_sat_rx_lost_def)
    have t1: "nm_us_per_bit ?c1 = nm_us_per_bit c"
      "dt_us_per_bit_factor_shift8 ?c1 = dt_us_per_bit_factor_shift8 c"
      by (simp_all add: can_inc_sat_rx_lost_def)
    have f1: "rx_frames ?c1 = rx_frames c" by (simp add: can_inc_sat_rx_lost_def)
    have u1: "unat (pi - rx_get_index ?c1) \<le> 2 ^ k" using Suc.prems(1) g1 by simp
    from Suc.hyps(1) [OF n u1 le, of ev]
    obtain pi' ev' c' where
      r: "rx_store_loop (2 ^ k) fifo tsv gio count (Suc i) (pi, ev, ?c1) = Inr (pi', ev', c')"
      and g: "rx_get_index c' = rx_get_index ?c1"
      and p: "rx_put_index c' = rx_put_index ?c1"
      and t: "nm_us_per_bit c' = nm_us_per_bit ?c1"
             "dt_us_per_bit_factor_shift8 c' = dt_us_per_bit_factor_shift8 ?c1"
      and us: "unat (pi' - rx_get_index ?c1) = min (unat (pi - rx_get_index ?c1) + (count - Suc i)) (2 ^ k)"
      and lo: "unat (rx_lost c') =
         min (unat (rx_lost ?c1) + (unat (pi - rx_get_index ?c1) + (count - Suc i) - 2 ^ k)) 65535"
      and fr: "\<forall>j < unat (pi - rx_get_index ?c1).
          rx_frames c' (rx_ring_pos (2 ^ k) ?c1 j) = rx_frames ?c1 (rx_ring_pos (2 ^ k) ?c1 j)"
      by blast
    have loop: "rx_store_loop (2 ^ k) fifo tsv gio count i (pi, ev, c) = Inr (pi', ev', c')"
      using r step by (simp add: rx_store_loop_step [OF lt])
    have pos: "rx_ring_pos (2 ^ k) ?c1 = rx_ring_pos (2 ^ k) c"
      by (rule rx_ring_pos_get_cong [OF g1])
    have a1: "unat (pi' - rx_get_index c) = min (u + (count - i)) (2 ^ k)"
      using us True by (simp add: g1 u_def [symmetric])
    have a2: "unat (rx_lost c') = min (unat (rx_lost c) + (u + (count - i) - 2 ^ k)) 65535"
      using lo True
      by (simp add: g1 u_def [symmetric] can_inc_sat_rx_lost_unat cnt sat_arith1 del: min_Suc1 min_Suc2)
    have a3: "\<forall>j < u. rx_frames c' (rx_ring_pos (2 ^ k) c j) = rx_frames c (rx_ring_pos (2 ^ k) c j)"
      using fr by (simp add: g1 pos f1 u_def)
    show ?thesis
      using loop g p t a1 a2 a3 True
      by (simp add: g1 p1 t1 u_def [symmetric])
  next
    case False
    then have room: "u < 2 ^ k" using Suc.prems(1) by (simp add: u_def)
    let ?slot = "unat pi AND (2 ^ k - 1)"
    let ?c1 = "c\<lparr>rx_frames := (rx_frames c)(?slot := rx_frame_store (rx_frames c ?slot) ?e ?t)\<rparr>"
    have step: "rx_store_step (2 ^ k) ?e ?t (pi, ev, c) = Inr (pi + 1, ev + 1, ?c1)"
      using room by (simp add: rx_store_step_room u_def)
    have slot: "?slot = rx_ring_pos (2 ^ k) c u"
      unfolding u_def by (rule rx_ring_pos_used)
    have g1: "rx_get_index ?c1 = rx_get_index c" by simp
    have su: "unat (pi + 1 - rx_get_index c) = Suc u"
      unfolding u_def by (rule unat_used_suc [OF _ fs128]) (use room in \<open>simp add: u_def\<close>)
    have u1: "unat (pi + 1 - rx_get_index ?c1) \<le> 2 ^ k" using su room by simp
    from Suc.hyps(1) [OF n u1 le, of "ev + 1"]
    obtain pi' ev' c' where
      r: "rx_store_loop (2 ^ k) fifo tsv gio count (Suc i) (pi + 1, ev + 1, ?c1) = Inr (pi', ev', c')"
      and g: "rx_get_index c' = rx_get_index ?c1"
      and p: "rx_put_index c' = rx_put_index ?c1"
      and t: "nm_us_per_bit c' = nm_us_per_bit ?c1"
             "dt_us_per_bit_factor_shift8 c' = dt_us_per_bit_factor_shift8 ?c1"
      and us: "unat (pi' - rx_get_index ?c1) = min (unat (pi + 1 - rx_get_index ?c1) + (count - Suc i)) (2 ^ k)"
      and lo: "unat (rx_lost c') =
         min (unat (rx_lost ?c1) + (unat (pi + 1 - rx_get_index ?c1) + (count - Suc i) - 2 ^ k)) 65535"
      and fr: "\<forall>j < unat (pi + 1 - rx_get_index ?c1).
          rx_frames c' (rx_ring_pos (2 ^ k) ?c1 j) = rx_frames ?c1 (rx_ring_pos (2 ^ k) ?c1 j)"
      and vw: "\<forall>j. j < count - Suc i \<and> unat (pi + 1 - rx_get_index ?c1) + j < 2 ^ k \<longrightarrow>
          rx_frame_view (rx_frames c' (rx_ring_pos (2 ^ k) ?c1 (unat (pi + 1 - rx_get_index ?c1) + j)))
          = rx_arrival_view (fifo (rx_slot (2 ^ k) gio (Suc i + j))) (tsv (rx_slot (2 ^ k) gio (Suc i + j)))"
      by blast
    have loop: "rx_store_loop (2 ^ k) fifo tsv gio count i (pi, ev, c) = Inr (pi', ev', c')"
      using r step by (simp add: rx_store_loop_step [OF lt])
    have pos: "rx_ring_pos (2 ^ k) ?c1 = rx_ring_pos (2 ^ k) c"
      by (rule rx_ring_pos_get_cong [OF g1])
    have a1: "unat (pi' - rx_get_index c) = min (u + (count - i)) (2 ^ k)"
      using us su by (simp add: cnt)
    have a2: "unat (rx_lost c') = min (unat (rx_lost c) + (u + (count - i) - 2 ^ k)) 65535"
      using lo su by (simp add: cnt)
    have fr': "\<forall>j < Suc u. rx_frames c' (rx_ring_pos (2 ^ k) c j) = rx_frames ?c1 (rx_ring_pos (2 ^ k) c j)"
      using fr su unfolding pos g1 by simp
    have a3: "\<forall>j < u. rx_frames c' (rx_ring_pos (2 ^ k) c j) = rx_frames c (rx_ring_pos (2 ^ k) c j)"
    proof (intro allI impI)
      fix j assume j: "j < u"
      have "rx_ring_pos (2 ^ k) c j \<noteq> rx_ring_pos (2 ^ k) c u"
        using rx_ring_pos_inj [OF k8, of j u c] j room by auto
      then have "rx_frames ?c1 (rx_ring_pos (2 ^ k) c j) = rx_frames c (rx_ring_pos (2 ^ k) c j)"
        unfolding slot by simp
      thus "rx_frames c' (rx_ring_pos (2 ^ k) c j) = rx_frames c (rx_ring_pos (2 ^ k) c j)"
        using fr' j by simp
    qed
    have a4: "\<forall>j. j < count - i \<and> u + j < 2 ^ k \<longrightarrow>
          rx_frame_view (rx_frames c' (rx_ring_pos (2 ^ k) c (u + j)))
          = rx_arrival_view (fifo (rx_slot (2 ^ k) gio (i + j))) (tsv (rx_slot (2 ^ k) gio (i + j)))"
    proof (intro allI impI)
      fix j assume j: "j < count - i \<and> u + j < 2 ^ k"
      show "rx_frame_view (rx_frames c' (rx_ring_pos (2 ^ k) c (u + j)))
          = rx_arrival_view (fifo (rx_slot (2 ^ k) gio (i + j))) (tsv (rx_slot (2 ^ k) gio (i + j)))"
      proof (cases j)
        case 0
        have "rx_frames c' (rx_ring_pos (2 ^ k) c u) = rx_frames ?c1 (rx_ring_pos (2 ^ k) c u)"
          using fr' by simp
        also have "\<dots> = rx_frame_store (rx_frames c ?slot) ?e ?t" unfolding slot by simp
        finally show ?thesis using 0 by (simp add: rx_frame_view_store)
      next
        case (Suc j')
        have "j' < count - Suc i \<and> Suc u + j' < 2 ^ k" using j Suc by auto
        then show ?thesis using vw su Suc unfolding pos g1 by simp
      qed
    qed
    show ?thesis
      using loop g p t a1 a2 a3 a4
      by (simp add: u_def [symmetric])
  qed
qed

lemma rx_element_time_us_cong:
  "nm_us_per_bit c' = nm_us_per_bit c \<Longrightarrow>
   dt_us_per_bit_factor_shift8 c' = dt_us_per_bit_factor_shift8 c \<Longrightarrow>
   rx_element_time_us c' = rx_element_time_us c"
  by (rule ext) (simp add: rx_element_time_us_def can_frame_time_us_def)

lemma rx_ts_loop_cong:
  assumes "rx_element_time_us c' = rx_element_time_us c"
  shows "rx_ts_loop fs c' fifo gio count i ts tsv = rx_ts_loop fs c fifo gio count i ts tsv"
proof (induction "count - i" arbitrary: i ts tsv)
  case 0
  then show ?case by (simp add: rx_ts_loop_done)
next
  case (Suc n)
  then have lt: "i < count" by simp
  have n: "n = count - Suc i" using Suc.hyps(2) by simp
  show ?case
    using Suc.hyps(1) [OF n] by (simp add: rx_ts_loop_step [OF lt] assms)
qed

lemma rx_poll_arrivals_cong:
  assumes "nm_us_per_bit c' = nm_us_per_bit c"
    and "dt_us_per_bit_factor_shift8 c' = dt_us_per_bit_factor_shift8 c"
  shows "rx_poll_arrivals fs c' p = rx_poll_arrivals fs c p"
proof -
  have e: "rx_element_time_us c' = rx_element_time_us c"
    by (rule rx_element_time_us_cong [OF assms])
  have "rx_timestamps fs c' = rx_timestamps fs c"
    by (intro ext) (simp only: rx_timestamps_def rx_ts_loop_cong [OF e])
  then show ?thesis by (simp only: rx_poll_arrivals_def)
qed

text \<open>One poll, from a ring that holds u frames.\<close>

lemma can_poll_rx_result:
  assumes k: "k \<le> 7" and u: "rx_used c \<le> 2 ^ k"
  shows "\<exists>m ev' c'. can_poll_rx (2 ^ k) p (ev, c) = Inr (m, ev', c') \<and>
       rx_get_index c' = rx_get_index c \<and>
       nm_us_per_bit c' = nm_us_per_bit c \<and>
       dt_us_per_bit_factor_shift8 c' = dt_us_per_bit_factor_shift8 c \<and>
       rx_used c' = min (rx_used c + RXF0S_F0FL p) (2 ^ k) \<and>
       unat (rx_lost c') = min (unat (rx_lost c) + (rx_used c + RXF0S_F0FL p - 2 ^ k)) 65535 \<and>
       (\<forall>j < rx_used c.
          rx_frames c' (rx_ring_pos (2 ^ k) c j) = rx_frames c (rx_ring_pos (2 ^ k) c j)) \<and>
       (\<forall>j. j < RXF0S_F0FL p \<and> rx_used c + j < 2 ^ k \<longrightarrow>
          rx_frame_view (rx_frames c' (rx_ring_pos (2 ^ k) c (rx_used c + j)))
          = rx_poll_arrivals (2 ^ k) c p ! j)"
proof (cases "RXF0S_F0FL p = 0")
  case True
  then show ?thesis using unat_u16_le [of "rx_lost c"] u
    by (auto simp: can_poll_rx_def)
next
  case False
  let ?tsv = "rx_timestamps (2 ^ k) c (hw_rx_fifo p) (RXF0S_F0GI p) (RXF0S_F0FL p) (poll_tsc p) (poll_tsv p)"
  have u': "unat (rx_put_index c - rx_get_index c) \<le> 2 ^ k" using u by (simp add: rx_used_def)
  from rx_store_loop_result [OF k u', of 0 "RXF0S_F0FL p" "hw_rx_fifo p" ?tsv "RXF0S_F0GI p" ev]
  obtain pi' ev' c' where
    r: "rx_store_loop (2 ^ k) (hw_rx_fifo p) ?tsv (RXF0S_F0GI p) (RXF0S_F0FL p) 0 (rx_put_index c, ev, c)
         = Inr (pi', ev', c')"
    and g: "rx_get_index c' = rx_get_index c"
    and t: "nm_us_per_bit c' = nm_us_per_bit c"
           "dt_us_per_bit_factor_shift8 c' = dt_us_per_bit_factor_shift8 c"
    and us: "unat (pi' - rx_get_index c) = min (rx_used c + RXF0S_F0FL p) (2 ^ k)"
    and lo: "unat (rx_lost c') = min (unat (rx_lost c) + (rx_used c + RXF0S_F0FL p - 2 ^ k)) 65535"
    and fr: "\<forall>j < rx_used c.
          rx_frames c' (rx_ring_pos (2 ^ k) c j) = rx_frames c (rx_ring_pos (2 ^ k) c j)"
    and vw: "\<forall>j. j < RXF0S_F0FL p \<and> rx_used c + j < 2 ^ k \<longrightarrow>
          rx_frame_view (rx_frames c' (rx_ring_pos (2 ^ k) c (rx_used c + j)))
          = rx_arrival_view (hw_rx_fifo p (rx_slot (2 ^ k) (RXF0S_F0GI p) j))
              (?tsv (rx_slot (2 ^ k) (RXF0S_F0GI p) j))"
    unfolding rx_used_def by auto
  have res: "can_poll_rx (2 ^ k) p (ev, c) = Inr (True, ev', c'\<lparr>rx_put_index := pi'\<rparr>)"
    using False r by (simp add: can_poll_rx_def Let_def)
  have vw': "\<forall>j. j < RXF0S_F0FL p \<and> rx_used c + j < 2 ^ k \<longrightarrow>
          rx_frame_view (rx_frames c' (rx_ring_pos (2 ^ k) c (rx_used c + j)))
          = rx_poll_arrivals (2 ^ k) c p ! j"
    using vw by (simp add: rx_poll_arrivals_def)
  show ?thesis
    using res g t us lo fr vw' by (auto simp: rx_used_def)
qed


lemma length_rx_poll_arrivals [simp]: "length (rx_poll_arrivals fs c p) = RXF0S_F0FL p"
  by (simp add: rx_poll_arrivals_def)

lemma length_concat_arrivals:
  "length (concat (map (rx_poll_arrivals fs c) ps)) = sum_list (map RXF0S_F0FL ps)"
  by (induction ps) simp_all

lemma min_min_add: "min (min a (m::nat) + b) m = min (a + b) m"
  by simp

lemma sat_lost_compose:
  fixes l u n1 n2 m :: nat
  assumes "u \<le> m"
  shows "min (min (l + (u + n1 - m)) 65535 + (min (u + n1) m + n2 - m)) 65535
       = min (l + (u + (n1 + n2) - m)) 65535"
  using assms by (cases "u + n1 \<le> m") auto

lemma can_poll_rx_all_result:
  assumes k: "k \<le> 7"
  shows "rx_used c \<le> 2 ^ k \<Longrightarrow>
     \<exists>ev' c'. can_poll_rx_all (2 ^ k) ps (ev, c) = Inr (ev', c') \<and>
       rx_get_index c' = rx_get_index c \<and>
       nm_us_per_bit c' = nm_us_per_bit c \<and>
       dt_us_per_bit_factor_shift8 c' = dt_us_per_bit_factor_shift8 c \<and>
       rx_used c' = min (rx_used c + sum_list (map RXF0S_F0FL ps)) (2 ^ k) \<and>
       unat (rx_lost c') =
         min (unat (rx_lost c) + (rx_used c + sum_list (map RXF0S_F0FL ps) - 2 ^ k)) 65535 \<and>
       (\<forall>j < rx_used c.
          rx_frames c' (rx_ring_pos (2 ^ k) c j) = rx_frames c (rx_ring_pos (2 ^ k) c j)) \<and>
       (\<forall>j. j < sum_list (map RXF0S_F0FL ps) \<and> rx_used c + j < 2 ^ k \<longrightarrow>
          rx_frame_view (rx_frames c' (rx_ring_pos (2 ^ k) c (rx_used c + j)))
          = concat (map (rx_poll_arrivals (2 ^ k) c) ps) ! j)"
proof (induction ps arbitrary: ev c)
  case Nil
  then show ?case using unat_u16_le [of "rx_lost c"] by simp
next
  case (Cons p ps)
  let ?n1 = "RXF0S_F0FL p"
  let ?N = "sum_list (map RXF0S_F0FL ps)"
  from can_poll_rx_result [OF k Cons.prems, of p ev]
  obtain m ev1 c1 where
    r1: "can_poll_rx (2 ^ k) p (ev, c) = Inr (m, ev1, c1)"
    and g1: "rx_get_index c1 = rx_get_index c"
    and t1: "nm_us_per_bit c1 = nm_us_per_bit c"
            "dt_us_per_bit_factor_shift8 c1 = dt_us_per_bit_factor_shift8 c"
    and u1: "rx_used c1 = min (rx_used c + ?n1) (2 ^ k)"
    and l1: "unat (rx_lost c1) = min (unat (rx_lost c) + (rx_used c + ?n1 - 2 ^ k)) 65535"
    and f1: "\<forall>j < rx_used c.
          rx_frames c1 (rx_ring_pos (2 ^ k) c j) = rx_frames c (rx_ring_pos (2 ^ k) c j)"
    and v1: "\<forall>j. j < ?n1 \<and> rx_used c + j < 2 ^ k \<longrightarrow>
          rx_frame_view (rx_frames c1 (rx_ring_pos (2 ^ k) c (rx_used c + j)))
          = rx_poll_arrivals (2 ^ k) c p ! j"
    by blast
  have u1le: "rx_used c1 \<le> 2 ^ k" using u1 by simp
  have pos: "rx_ring_pos (2 ^ k) c1 = rx_ring_pos (2 ^ k) c"
    by (rule rx_ring_pos_get_cong [OF g1])
  have arr: "rx_poll_arrivals (2 ^ k) c1 = rx_poll_arrivals (2 ^ k) c"
    by (rule ext) (rule rx_poll_arrivals_cong [OF t1])
  from Cons.IH [OF u1le, of ev1]
  obtain ev' c' where
    r: "can_poll_rx_all (2 ^ k) ps (ev1, c1) = Inr (ev', c')"
    and g: "rx_get_index c' = rx_get_index c1"
    and t: "nm_us_per_bit c' = nm_us_per_bit c1"
           "dt_us_per_bit_factor_shift8 c' = dt_us_per_bit_factor_shift8 c1"
    and us: "rx_used c' = min (rx_used c1 + ?N) (2 ^ k)"
    and lo: "unat (rx_lost c') = min (unat (rx_lost c1) + (rx_used c1 + ?N - 2 ^ k)) 65535"
    and fr: "\<forall>j < rx_used c1.
          rx_frames c' (rx_ring_pos (2 ^ k) c j) = rx_frames c1 (rx_ring_pos (2 ^ k) c j)"
    and vw: "\<forall>j. j < ?N \<and> rx_used c1 + j < 2 ^ k \<longrightarrow>
          rx_frame_view (rx_frames c' (rx_ring_pos (2 ^ k) c (rx_used c1 + j)))
          = concat (map (rx_poll_arrivals (2 ^ k) c) ps) ! j"
    unfolding pos arr by blast
  have res: "can_poll_rx_all (2 ^ k) (p # ps) (ev, c) = Inr (ev', c')"
    using r1 r by simp
  have a1: "rx_used c' = min (rx_used c + sum_list (map RXF0S_F0FL (p # ps))) (2 ^ k)"
    using us u1 by (simp add: min_min_add add.assoc)
  have a2: "unat (rx_lost c') =
      min (unat (rx_lost c) + (rx_used c + sum_list (map RXF0S_F0FL (p # ps)) - 2 ^ k)) 65535"
    using lo l1 u1 sat_lost_compose [OF Cons.prems, of "unat (rx_lost c)" ?n1 ?N] by simp
  have a3: "\<forall>j < rx_used c.
      rx_frames c' (rx_ring_pos (2 ^ k) c j) = rx_frames c (rx_ring_pos (2 ^ k) c j)"
  proof (intro allI impI)
    fix j assume j: "j < rx_used c"
    then have "j < rx_used c1" using u1 Cons.prems by simp
    then show "rx_frames c' (rx_ring_pos (2 ^ k) c j) = rx_frames c (rx_ring_pos (2 ^ k) c j)"
      using fr f1 j by simp
  qed
  have a4: "\<forall>j. j < sum_list (map RXF0S_F0FL (p # ps)) \<and> rx_used c + j < 2 ^ k \<longrightarrow>
      rx_frame_view (rx_frames c' (rx_ring_pos (2 ^ k) c (rx_used c + j)))
      = concat (map (rx_poll_arrivals (2 ^ k) c) (p # ps)) ! j"
  proof (intro allI impI)
    fix j assume j: "j < sum_list (map RXF0S_F0FL (p # ps)) \<and> rx_used c + j < 2 ^ k"
    show "rx_frame_view (rx_frames c' (rx_ring_pos (2 ^ k) c (rx_used c + j)))
      = concat (map (rx_poll_arrivals (2 ^ k) c) (p # ps)) ! j"
    proof (cases "j < ?n1")
      case True
      then have "rx_used c + j < rx_used c1" using u1 j by simp
      then have "rx_frames c' (rx_ring_pos (2 ^ k) c (rx_used c + j))
          = rx_frames c1 (rx_ring_pos (2 ^ k) c (rx_used c + j))"
        using fr by simp
      then show ?thesis using v1 True j by (simp add: nth_append)
    next
      case False
      then have ge: "?n1 \<le> j" by simp
      then have e: "rx_used c1 = rx_used c + ?n1" using u1 j by simp
      have "j - ?n1 < ?N \<and> rx_used c1 + (j - ?n1) < 2 ^ k" using j ge e by auto
      then have "rx_frame_view (rx_frames c' (rx_ring_pos (2 ^ k) c (rx_used c1 + (j - ?n1))))
          = concat (map (rx_poll_arrivals (2 ^ k) c) ps) ! (j - ?n1)"
        using vw by blast
      moreover have "rx_used c1 + (j - ?n1) = rx_used c + j" using e ge by simp
      ultimately show ?thesis using False by (simp add: nth_append)
    qed
  qed
  show ?case
    using res g g1 t t1 a1 a2 a3 a4 by simp
qed

text \<open>from the empty ring\<close>
lemma can_poll_rx_all_from_empty:
  assumes k: "k \<le> 7" and e: "rx_put_index c = rx_get_index c"
  shows "\<exists>ev' c'. can_poll_rx_all (2 ^ k) ps (ev, c) = Inr (ev', c') \<and>
       rx_get_index c' = rx_get_index c \<and>
       rx_used c' = min (sum_list (map RXF0S_F0FL ps)) (2 ^ k) \<and>
       unat (rx_lost c') =
         min (unat (rx_lost c) + (sum_list (map RXF0S_F0FL ps) - 2 ^ k)) 65535 \<and>
       map rx_frame_view (rx_ring_contents (2 ^ k) c')
         = take (2 ^ k) (concat (map (rx_poll_arrivals (2 ^ k) c) ps))"
proof -
  have u0: "rx_used c = 0" using e by (simp add: rx_used_def)
  then have ule: "rx_used c \<le> 2 ^ k" by simp
  from can_poll_rx_all_result [OF k ule, of ps ev]
  obtain ev' c' where
    r: "can_poll_rx_all (2 ^ k) ps (ev, c) = Inr (ev', c')"
    and g: "rx_get_index c' = rx_get_index c"
    and us: "rx_used c' = min (sum_list (map RXF0S_F0FL ps)) (2 ^ k)"
    and lo: "unat (rx_lost c') =
         min (unat (rx_lost c) + (sum_list (map RXF0S_F0FL ps) - 2 ^ k)) 65535"
    and vw: "\<forall>j. j < sum_list (map RXF0S_F0FL ps) \<and> j < 2 ^ k \<longrightarrow>
          rx_frame_view (rx_frames c' (rx_ring_pos (2 ^ k) c j))
          = concat (map (rx_poll_arrivals (2 ^ k) c) ps) ! j"
    unfolding u0 by auto
  have pos: "rx_ring_pos (2 ^ k) c' = rx_ring_pos (2 ^ k) c"
    by (rule rx_ring_pos_get_cong [OF g])
  have "map rx_frame_view (rx_ring_contents (2 ^ k) c')
         = take (2 ^ k) (concat (map (rx_poll_arrivals (2 ^ k) c) ps))"
  proof (rule nth_equalityI)
    show "length (map rx_frame_view (rx_ring_contents (2 ^ k) c'))
        = length (take (2 ^ k) (concat (map (rx_poll_arrivals (2 ^ k) c) ps)))"
      by (simp add: rx_ring_contents_def us length_concat_arrivals min.commute)
  next
    fix j assume "j < length (map rx_frame_view (rx_ring_contents (2 ^ k) c'))"
    then have j: "j < sum_list (map RXF0S_F0FL ps) \<and> j < 2 ^ k"
      by (simp add: rx_ring_contents_def us)
    then have "rx_frame_view (rx_frames c' (rx_ring_pos (2 ^ k) c j))
          = concat (map (rx_poll_arrivals (2 ^ k) c) ps) ! j"
      using vw by blast
    then show "map rx_frame_view (rx_ring_contents (2 ^ k) c') ! j
        = take (2 ^ k) (concat (map (rx_poll_arrivals (2 ^ k) c) ps)) ! j"
      using j by (simp add: rx_ring_contents_def us pos)
  qed
  then show ?thesis using r g us lo by simp
qed

lemma word_of_unat_eq: "unat (w :: 'a::len word) = n \<Longrightarrow> w = of_nat n"
  by auto

lemma rx_store_step_room_keeps:
  assumes k: "k \<le> 7" and room: "unat (pi - rx_get_index c) < 2 ^ k"
  shows "\<exists>c1. rx_store_step (2 ^ k) e ts (pi, ev, c) = Inr (pi + 1, ev + 1, c1) \<and>
     rx_get_index c1 = rx_get_index c \<and> rx_lost c1 = rx_lost c \<and>
     (\<forall>j < unat (pi - rx_get_index c).
        rx_frames c1 (rx_ring_pos (2 ^ k) c j) = rx_frames c (rx_ring_pos (2 ^ k) c j)) \<and>
     rx_frame_view (rx_frames c1 (rx_ring_pos (2 ^ k) c (unat (pi - rx_get_index c))))
       = rx_arrival_view e ts"
proof -
  let ?slot = "unat pi AND (2 ^ k - 1)"
  let ?c1 = "c\<lparr>rx_frames := (rx_frames c)(?slot := rx_frame_store (rx_frames c ?slot) e ts)\<rparr>"
  have k8: "k \<le> 8" using k by simp
  have step: "rx_store_step (2 ^ k) e ts (pi, ev, c) = Inr (pi + 1, ev + 1, ?c1)"
    by (rule rx_store_step_room [OF room])
  have slot: "?slot = rx_ring_pos (2 ^ k) c (unat (pi - rx_get_index c))"
    by (rule rx_ring_pos_used)
  have keep: "\<forall>j < unat (pi - rx_get_index c).
        rx_frames ?c1 (rx_ring_pos (2 ^ k) c j) = rx_frames c (rx_ring_pos (2 ^ k) c j)"
  proof (intro allI impI)
    fix j assume j: "j < unat (pi - rx_get_index c)"
    have "rx_ring_pos (2 ^ k) c j \<noteq> rx_ring_pos (2 ^ k) c (unat (pi - rx_get_index c))"
      using rx_ring_pos_inj [OF k8, of j "unat (pi - rx_get_index c)" c] j room by auto
    then show "rx_frames ?c1 (rx_ring_pos (2 ^ k) c j) = rx_frames c (rx_ring_pos (2 ^ k) c j)"
      unfolding slot by simp
  qed
  have new: "rx_frame_view (rx_frames ?c1 (rx_ring_pos (2 ^ k) c (unat (pi - rx_get_index c))))
       = rx_arrival_view e ts"
    unfolding slot by (simp add: rx_frame_view_store)
  show ?thesis using step keep new by simp
qed

lemma p5: "(2::nat) ^ 5 = 32" by simp

text \<open>
  Claim C2, amended. For an RX ring of capacity 32 that starts empty with a lost counter
  of 0, any run of polls that delivers 40 frames with no dequeue in between ends with the
  lost counter at 8 and 32 frames in the ring; the retained frames are the first 32 that
  arrived, in arrival order (the producer drops the newest frame when the ring is full;
  the last 8 are the ones lost). On every overflow (\<open>used == 32\<close>) the producer step
  increments the saturating lost counter, writes no slot and leaves the put index as it
  is; a step with room advances the put index by one, leaves the lost counter alone and
  changes none of the unread slots.
\<close>

theorem rx_ring_overflow:
  assumes "rx_put_index c = rx_get_index c" and "rx_lost c = 0"
    and "sum_list (map RXF0S_F0FL ps) = 40"
  shows "(\<exists>ev' c'. can_poll_rx_all 32 ps (ev, c) = Inr (ev', c') \<and>
            rx_lost c' = 8 \<and> rx_used c' = 32 \<and> rx_get_index c' = rx_get_index c \<and>
            map rx_frame_view (rx_ring_contents 32 c')
              = take 32 (concat (map (rx_poll_arrivals 32 c) ps)))
    \<and> (\<forall>pi evs (c0::can) e ts. unat (pi - rx_get_index c0) = 32 \<longrightarrow>
          rx_store_step 32 e ts (pi, evs, c0) = Inr (pi, evs, can_inc_sat_rx_lost c0) \<and>
          rx_frames (can_inc_sat_rx_lost c0) = rx_frames c0 \<and>
          unat (rx_lost (can_inc_sat_rx_lost c0)) = min (Suc (unat (rx_lost c0))) 65535)
    \<and> (\<forall>pi evs (c0::can) e ts. unat (pi - rx_get_index c0) < 32 \<longrightarrow>
          (\<exists>c1. rx_store_step 32 e ts (pi, evs, c0) = Inr (pi + 1, evs + 1, c1) \<and>
             rx_lost c1 = rx_lost c0 \<and>
             (\<forall>j < unat (pi - rx_get_index c0).
                rx_frames c1 (rx_ring_pos 32 c0 j) = rx_frames c0 (rx_ring_pos 32 c0 j))))"
proof (intro conjI allI impI)
  have k: "(5::nat) \<le> 7" by simp
  from can_poll_rx_all_from_empty [OF k assms(1), of ps ev, unfolded p5]
  obtain ev' c' where
    r: "can_poll_rx_all 32 ps (ev, c) = Inr (ev', c')"
    and g: "rx_get_index c' = rx_get_index c"
    and us: "rx_used c' = min (sum_list (map RXF0S_F0FL ps)) 32"
    and lo: "unat (rx_lost c') = min (unat (rx_lost c) + (sum_list (map RXF0S_F0FL ps) - 32)) 65535"
    and vw: "map rx_frame_view (rx_ring_contents 32 c')
         = take 32 (concat (map (rx_poll_arrivals 32 c) ps))"
    by blast
  have "unat (rx_lost c') = 8" using lo assms(2,3) by simp
  then have l8: "rx_lost c' = 8" using word_of_unat_eq [of "rx_lost c'" 8] by simp
  have u32: "rx_used c' = 32" using us assms(3) by simp
  show "\<exists>ev' c'. can_poll_rx_all 32 ps (ev, c) = Inr (ev', c') \<and>
            rx_lost c' = 8 \<and> rx_used c' = 32 \<and> rx_get_index c' = rx_get_index c \<and>
            map rx_frame_view (rx_ring_contents 32 c')
              = take 32 (concat (map (rx_poll_arrivals 32 c) ps))"
    using r l8 u32 g vw by blast
next
  fix pi :: u8 and evs :: u32 and c0 :: can and e ts
  assume "unat (pi - rx_get_index c0) = 32"
  then show "rx_store_step 32 e ts (pi, evs, c0) = Inr (pi, evs, can_inc_sat_rx_lost c0)"
    by (rule rx_store_step_full)
next
  fix c0 :: can
  show "rx_frames (can_inc_sat_rx_lost c0) = rx_frames c0"
    by (simp add: can_inc_sat_rx_lost_def)
next
  fix c0 :: can
  show "unat (rx_lost (can_inc_sat_rx_lost c0)) = min (Suc (unat (rx_lost c0))) 65535"
    by (rule can_inc_sat_rx_lost_unat)
next
  fix pi :: u8 and evs :: u32 and c0 :: can and e ts
  assume room: "unat (pi - rx_get_index c0) < 32"
  have k: "(5::nat) \<le> 7" by simp
  have room': "unat (pi - rx_get_index c0) < 2 ^ 5" using room by simp
  from rx_store_step_room_keeps [OF k room', of e ts evs, unfolded p5]
  show "\<exists>c1. rx_store_step 32 e ts (pi, evs, c0) = Inr (pi + 1, evs + 1, c1) \<and>
             rx_lost c1 = rx_lost c0 \<and>
             (\<forall>j < unat (pi - rx_get_index c0).
                rx_frames c1 (rx_ring_pos 32 c0 j) = rx_frames c0 (rx_ring_pos 32 c0 j))"
    by blast
qed


theorem rx_ring_overflow_witness:
  "rx_put_index example_can = rx_get_index example_can \<and> rx_lost example_can = 0
   \<and> sum_list (map RXF0S_F0FL example_polls) = 40
   \<and> (\<exists>ev' c'. can_poll_rx_all 32 example_polls (0, example_can) = Inr (ev', c') \<and>
          rx_lost c' = 8 \<and> rx_used c' = 32 \<and> rx_get_index c' = rx_get_index example_can \<and>
          map rx_frame_view (rx_ring_contents 32 c')
            = take 32 (concat (map (rx_poll_arrivals 32 example_can) example_polls)))
   \<and> unat ((32::u8) - rx_get_index example_can) = 32
   \<and> rx_store_step 32 (example_frame 99) 7 (32, 0, example_can)
       = Inr (32, 0, can_inc_sat_rx_lost example_can)
   \<and> unat ((5::u8) - rx_get_index example_can) < 32
   \<and> (\<exists>c1. rx_store_step 32 (example_frame 99) 7 (5, 0, example_can) = Inr (5 + 1, 0 + 1, c1) \<and>
          rx_lost c1 = rx_lost example_can \<and>
          (\<forall>j < unat ((5::u8) - rx_get_index example_can).
             rx_frames c1 (rx_ring_pos 32 example_can j)
             = rx_frames example_can (rx_ring_pos 32 example_can j)))"
proof -
  have h1: "rx_put_index example_can = rx_get_index example_can"
    by (simp add: example_can_def)
  have h2: "rx_lost example_can = 0" by (simp add: example_can_def)
  have h3: "sum_list (map RXF0S_F0FL example_polls) = 40" by (simp add: example_polls_def)
  have h4: "unat ((32::u8) - rx_get_index example_can) = 32" by (simp add: example_can_def)
  have h5: "unat ((5::u8) - rx_get_index example_can) < 32" by (simp add: example_can_def)
  note t = rx_ring_overflow [OF h1 h2 h3, of 0]
  from t have a: "\<exists>ev' c'. can_poll_rx_all 32 example_polls (0, example_can) = Inr (ev', c') \<and>
          rx_lost c' = 8 \<and> rx_used c' = 32 \<and> rx_get_index c' = rx_get_index example_can \<and>
          map rx_frame_view (rx_ring_contents 32 c')
            = take 32 (concat (map (rx_poll_arrivals 32 example_can) example_polls))"
    by (rule conjunct1)
  from t h4 have b: "rx_store_step 32 (example_frame 99) 7 (32, 0, example_can)
       = Inr (32, 0, can_inc_sat_rx_lost example_can)"
    by blast
  from t h5 have c: "\<exists>c1. rx_store_step 32 (example_frame 99) 7 (5, 0, example_can) = Inr (5 + 1, 0 + 1, c1) \<and>
          rx_lost c1 = rx_lost example_can \<and>
          (\<forall>j < unat ((5::u8) - rx_get_index example_can).
             rx_frames c1 (rx_ring_pos 32 example_can j)
             = rx_frames example_can (rx_ring_pos 32 example_can j))"
    by blast
  show ?thesis using h1 h2 h3 h4 h5 a b c by blast
qed

lemma example_arrival_id:
  "j < 32 \<Longrightarrow>
   R0_ID (fst (concat (map (rx_poll_arrivals 32 example_can) example_polls) ! j))
     = of_nat (rx_slot 32 0 j)"
  by (simp add: example_polls_def rx_poll_arrivals_def nth_append rx_arrival_view_def
      example_rx_fifo_def example_frame_def)

text \<open>
  The claim as stated says that the most recent 32 frames are retained. With frames
  numbered 0 to 39 by identifier, the ring holds the frames 0 to 31 (\<open>take 32\<close>), not
  the frames 8 to 39 (\<open>drop 8\<close>).
\<close>

theorem rx_ring_overflow_counterexample:
  "map rx_frame_view
     (rx_ring_contents 32 (snd (projr (can_poll_rx_all 32 example_polls (0, example_can)))))
     = take 32 (concat (map (rx_poll_arrivals 32 example_can) example_polls))
   \<and> map rx_frame_view
     (rx_ring_contents 32 (snd (projr (can_poll_rx_all 32 example_polls (0, example_can)))))
     \<noteq> drop 8 (concat (map (rx_poll_arrivals 32 example_can) example_polls))"
proof -
  let ?xs = "concat (map (rx_poll_arrivals 32 example_can) example_polls)"
  have k: "(5::nat) \<le> 7" by simp
  have h1: "rx_put_index example_can = rx_get_index example_can"
    by (simp add: example_can_def)
  from can_poll_rx_all_from_empty [OF k h1, of example_polls 0, unfolded p5]
  obtain ev' c' where
    r: "can_poll_rx_all 32 example_polls (0, example_can) = Inr (ev', c')"
    and vw: "map rx_frame_view (rx_ring_contents 32 c') = take 32 ?xs"
    by blast
  have len: "length ?xs = 40"
    by (simp add: length_concat_arrivals example_polls_def)
  have a: "R0_ID (fst (take 32 ?xs ! 0)) = 0"
    using example_arrival_id [of 0] by (simp add: rx_slot_def)
  have b: "R0_ID (fst (drop 8 ?xs ! 0)) = 8"
    using example_arrival_id [of 8] len by (simp add: rx_slot_def)
  have "take 32 ?xs \<noteq> drop 8 ?xs"
  proof
    assume e: "take 32 ?xs = drop 8 ?xs"
    from a have "R0_ID (fst (drop 8 ?xs ! 0)) = 0" unfolding e .
    with b show False by simp
  qed
  then show ?thesis using r vw by simp
qed

section \<open>Submission of a CAN-data bank\<close>




section \<open>Error replies of the command processor\<close>

declare sc_cmd_bulk_out_loop.simps [simp del]
declare sc_can_bulk_out_loop.simps [simp del]

lemma cmd_room_iff:
  "cmd_room H bytes s \<longleftrightarrow>
     tx_offsets (usb_cmd s) (tx_bank (usb_cmd s)) + bytes \<le> CMD_BUFFER_SIZE H"
  by (auto simp: cmd_room_def)

lemma cmd_room_after_submit:
  assumes "sc_cmd_bulk_in_ep_ready s" "bytes \<le> CMD_BUFFER_SIZE H"
  shows "cmd_room H bytes (sc_cmd_bulk_in_submit s)"
  using assms
  by (simp add: cmd_room_iff sc_cmd_bulk_in_ep_ready_def sc_cmd_bulk_in_submit_def Let_def)

text \<open>the three outcomes of placing an error reply\<close>

lemma sc_cmd_place_error_reply_cases:
  assumes "sizeof_sc_msg_error H \<le> CMD_BUFFER_SIZE H"
  shows "sc_cmd_place_error_reply H error s =
     Some (if cmd_room H (sizeof_sc_msg_error H) s then
             cmd_place (sizeof_sc_msg_error H) (Msg_error error) s
           else if sc_cmd_bulk_in_ep_ready s then
             cmd_place (sizeof_sc_msg_error H) (Msg_error error) (sc_cmd_bulk_in_submit s)
           else s)"
proof (cases "cmd_room H (sizeof_sc_msg_error H) s")
  case True
  then show ?thesis by (subst sc_cmd_place_error_reply.simps) simp
next
  case False
  show ?thesis
  proof (cases "sc_cmd_bulk_in_ep_ready s")
    case True
    have r: "cmd_room H (sizeof_sc_msg_error H) (sc_cmd_bulk_in_submit s)"
      by (rule cmd_room_after_submit [OF True assms])
    have "sc_cmd_place_error_reply H error (sc_cmd_bulk_in_submit s)
        = Some (cmd_place (sizeof_sc_msg_error H) (Msg_error error) (sc_cmd_bulk_in_submit s))"
      using r by (subst sc_cmd_place_error_reply.simps) simp
    then show ?thesis using False True by (subst sc_cmd_place_error_reply.simps) simp
  next
    case F2: False
    then show ?thesis using False by (subst sc_cmd_place_error_reply.simps) simp
  qed
qed

lemma cmd_place_frame:
  "cans_can (cmd_place bytes rep s) = cans_can s \<and> usb_can (cmd_place bytes rep s) = usb_can s"
  by (simp add: cmd_place_def Let_def)

lemma sc_cmd_bulk_in_submit_frame:
  "cans_can (sc_cmd_bulk_in_submit s) = cans_can s \<and> usb_can (sc_cmd_bulk_in_submit s) = usb_can s"
  by (simp add: sc_cmd_bulk_in_submit_def Let_def)


lemma cmd_place_effects:
  "effects (cmd_place bytes rep s)
     = effects s @ [Write_cmd (tx_bank (usb_cmd s)) (tx_offsets (usb_cmd s) (tx_bank (usb_cmd s))) rep]"
  by (simp add: cmd_place_def Let_def)

lemma error_reply_outcome:
  assumes "sizeof_sc_msg_error H \<le> CMD_BUFFER_SIZE H"
  shows "\<exists>s'. sc_cmd_place_error_reply H error s = Some s' \<and>
     cans_can s' = cans_can s \<and> usb_can s' = usb_can s \<and>
     (if cmd_room H (sizeof_sc_msg_error H) s then
        effects s' = effects s @
          [Write_cmd (tx_bank (usb_cmd s)) (tx_offsets (usb_cmd s) (tx_bank (usb_cmd s)))
             (Msg_error error)]
      else if sc_cmd_bulk_in_ep_ready s then
        effects s' = effects s @
          [Edpt_xfer_cmd_in (tx_bank (usb_cmd s)) (tx_offsets (usb_cmd s) (tx_bank (usb_cmd s))),
           Write_cmd (\<not> tx_bank (usb_cmd s)) 0 (Msg_error error)]
      else s' = s)"
  unfolding sc_cmd_place_error_reply_cases [OF assms]
  by (simp add: cmd_place_frame sc_cmd_bulk_in_submit_frame cmd_place_effects
      sc_cmd_bulk_in_submit_def sc_cmd_bulk_in_ep_ready_def Let_def)

lemma sc_cmd_ids_distinctD:
  assumes "sc_cmd_ids_distinct H"
  shows "SC_MSG_NM_BITTIMING H \<noteq> SC_MSG_EOF H \<and> SC_MSG_NM_BITTIMING H \<noteq> SC_MSG_HELLO_DEVICE H
     \<and> SC_MSG_NM_BITTIMING H \<noteq> SC_MSG_DEVICE_INFO H \<and> SC_MSG_NM_BITTIMING H \<noteq> SC_MSG_CAN_INFO H"
    and "SC_MSG_DT_BITTIMING H \<noteq> SC_MSG_EOF H \<and> SC_MSG_DT_BITTIMING H \<noteq> SC_MSG_HELLO_DEVICE H
     \<and> SC_MSG_DT_BITTIMING H \<noteq> SC_MSG_DEVICE_INFO H \<and> SC_MSG_DT_BITTIMING H \<noteq> SC_MSG_CAN_INFO H
     \<and> SC_MSG_DT_BITTIMING H \<noteq> SC_MSG_NM_BITTIMING H"
    and "SC_MSG_FEATURES H \<noteq> SC_MSG_EOF H \<and> SC_MSG_FEATURES H \<noteq> SC_MSG_HELLO_DEVICE H
     \<and> SC_MSG_FEATURES H \<noteq> SC_MSG_DEVICE_INFO H \<and> SC_MSG_FEATURES H \<noteq> SC_MSG_CAN_INFO H
     \<and> SC_MSG_FEATURES H \<noteq> SC_MSG_NM_BITTIMING H \<and> SC_MSG_FEATURES H \<noteq> SC_MSG_DT_BITTIMING H"
    and "SC_MSG_BUS H \<noteq> SC_MSG_EOF H \<and> SC_MSG_BUS H \<noteq> SC_MSG_HELLO_DEVICE H
     \<and> SC_MSG_BUS H \<noteq> SC_MSG_DEVICE_INFO H \<and> SC_MSG_BUS H \<noteq> SC_MSG_CAN_INFO H
     \<and> SC_MSG_BUS H \<noteq> SC_MSG_NM_BITTIMING H \<and> SC_MSG_BUS H \<noteq> SC_MSG_DT_BITTIMING H
     \<and> SC_MSG_BUS H \<noteq> SC_MSG_FEATURES H"
  using assms unfolding sc_cmd_ids_distinct_def by (simp_all add: eq_commute)

lemma sc_cmd_dispatch_short_nm:
  assumes "sc_cmd_ids_distinct H" "msg_len < sizeof_sc_msg_bittiming H"
  shows "sc_cmd_dispatch H (SC_MSG_NM_BITTIMING H) msg_len msg s
       = map_option (Pair False) (sc_cmd_place_error_reply H (SC_ERROR_SHORT H) s)"
  using sc_cmd_ids_distinctD(1) [OF assms(1)] assms(2) by (simp add: sc_cmd_dispatch_def)

lemma sc_cmd_dispatch_short_dt:
  assumes "sc_cmd_ids_distinct H" "msg_len < sizeof_sc_msg_bittiming H"
  shows "sc_cmd_dispatch H (SC_MSG_DT_BITTIMING H) msg_len msg s
       = map_option (Pair False) (sc_cmd_place_error_reply H (SC_ERROR_SHORT H) s)"
  using sc_cmd_ids_distinctD(2) [OF assms(1)] assms(2) by (simp add: sc_cmd_dispatch_def)

lemma sc_cmd_dispatch_short_features:
  assumes "sc_cmd_ids_distinct H" "msg_len < sizeof_sc_msg_features H"
  shows "sc_cmd_dispatch H (SC_MSG_FEATURES H) msg_len msg s
       = map_option (Pair False) (sc_cmd_place_error_reply H (SC_ERROR_SHORT H) s)"
  using sc_cmd_ids_distinctD(3) [OF assms(1)] assms(2) by (simp add: sc_cmd_dispatch_def)

lemma sc_cmd_dispatch_short_bus:
  assumes "sc_cmd_ids_distinct H" "msg_len < sizeof_sc_msg_config H"
  shows "sc_cmd_dispatch H (SC_MSG_BUS H) msg_len msg s
       = map_option (Pair False) (sc_cmd_place_error_reply H (SC_ERROR_SHORT H) s)"
  using sc_cmd_ids_distinctD(4) [OF assms(1)] assms(2) by (simp add: sc_cmd_dispatch_def)

lemma sc_cmd_dispatch_short:
  assumes "sc_cmd_ids_distinct H" "sc_cmd_too_short H msg_id msg_len"
  shows "sc_cmd_dispatch H msg_id msg_len msg s
       = map_option (Pair False) (sc_cmd_place_error_reply H (SC_ERROR_SHORT H) s)"
proof -
  from assms(2) consider
      (nm) "msg_id = SC_MSG_NM_BITTIMING H" "msg_len < sizeof_sc_msg_bittiming H"
    | (dt) "msg_id = SC_MSG_DT_BITTIMING H" "msg_len < sizeof_sc_msg_bittiming H"
    | (ft) "msg_id = SC_MSG_FEATURES H" "msg_len < sizeof_sc_msg_features H"
    | (bus) "msg_id = SC_MSG_BUS H" "msg_len < sizeof_sc_msg_config H"
    unfolding sc_cmd_too_short_def by blast
  then show ?thesis
  proof cases
    case nm
    show ?thesis unfolding nm(1) by (rule sc_cmd_dispatch_short_nm [OF assms(1) nm(2)])
  next
    case dt
    show ?thesis unfolding dt(1) by (rule sc_cmd_dispatch_short_dt [OF assms(1) dt(2)])
  next
    case ft
    show ?thesis unfolding ft(1) by (rule sc_cmd_dispatch_short_features [OF assms(1) ft(2)])
  next
    case bus
    show ?thesis unfolding bus(1) by (rule sc_cmd_dispatch_short_bus [OF assms(1) bus(2)])
  qed
qed

lemma sc_cmd_dispatch_unknown:
  assumes "sc_cmd_unknown H msg_id"
  shows "sc_cmd_dispatch H msg_id msg_len msg s
       = map_option (Pair False) (sc_cmd_place_error_reply H (SC_ERROR_UNSUPPORTED H) s)"
  using assms
  by (simp add: sc_cmd_unknown_def sc_cmd_dispatch_def)

text \<open>
  Claim C9, amended. For every bit-timing, feature or bus command whose declared length
  is shorter than the structure of its kind, the command processor places an error reply
  with \<open>SC_ERROR_SHORT\<close>, and for every command with an unknown id one with
  \<open>SC_ERROR_UNSUPPORTED\<close>, whenever the reply fits the active command bank, or the
  other bank is idle so that the active one can be submitted first (the reply then opens
  the other bank). When neither holds the reply is dropped and the state is exactly as
  before. In every case the message loop goes on to the next message, and the channel
  state and the CAN-data endpoint are unchanged.
\<close>

theorem sc_cmd_error_replies:
  assumes "sc_cmd_ids_distinct H" and "sizeof_sc_msg_error H \<le> CMD_BUFFER_SIZE H"
  shows "(sc_cmd_too_short H msg_id msg_len \<or> sc_cmd_unknown H msg_id) \<longrightarrow>
     (\<exists>s'. sc_cmd_dispatch H msg_id msg_len msg s = Some (False, s') \<and>
        cans_can s' = cans_can s \<and> usb_can s' = usb_can s \<and>
        (if cmd_room H (sizeof_sc_msg_error H) s then
           effects s' = effects s @
             [Write_cmd (tx_bank (usb_cmd s)) (tx_offsets (usb_cmd s) (tx_bank (usb_cmd s)))
                (Msg_error (if sc_cmd_unknown H msg_id then SC_ERROR_UNSUPPORTED H
                            else SC_ERROR_SHORT H))]
         else if sc_cmd_bulk_in_ep_ready s then
           effects s' = effects s @
             [Edpt_xfer_cmd_in (tx_bank (usb_cmd s)) (tx_offsets (usb_cmd s) (tx_bank (usb_cmd s))),
              Write_cmd (\<not> tx_bank (usb_cmd s)) 0
                (Msg_error (if sc_cmd_unknown H msg_id then SC_ERROR_UNSUPPORTED H
                            else SC_ERROR_SHORT H))]
         else s' = s))"
proof (intro impI)
  assume a: "sc_cmd_too_short H msg_id msg_len \<or> sc_cmd_unknown H msg_id"
  show "\<exists>s'. sc_cmd_dispatch H msg_id msg_len msg s = Some (False, s') \<and>
        cans_can s' = cans_can s \<and> usb_can s' = usb_can s \<and>
        (if cmd_room H (sizeof_sc_msg_error H) s then
           effects s' = effects s @
             [Write_cmd (tx_bank (usb_cmd s)) (tx_offsets (usb_cmd s) (tx_bank (usb_cmd s)))
                (Msg_error (if sc_cmd_unknown H msg_id then SC_ERROR_UNSUPPORTED H
                            else SC_ERROR_SHORT H))]
         else if sc_cmd_bulk_in_ep_ready s then
           effects s' = effects s @
             [Edpt_xfer_cmd_in (tx_bank (usb_cmd s)) (tx_offsets (usb_cmd s) (tx_bank (usb_cmd s))),
              Write_cmd (\<not> tx_bank (usb_cmd s)) 0
                (Msg_error (if sc_cmd_unknown H msg_id then SC_ERROR_UNSUPPORTED H
                            else SC_ERROR_SHORT H))]
         else s' = s)"
  proof (cases "sc_cmd_unknown H msg_id")
    case True
    from error_reply_outcome [OF assms(2), of "SC_ERROR_UNSUPPORTED H" s]
    show ?thesis using True by (auto simp: sc_cmd_dispatch_unknown [OF True])
  next
    case False
    then have sh: "sc_cmd_too_short H msg_id msg_len" using a by simp
    from error_reply_outcome [OF assms(2), of "SC_ERROR_SHORT H" s]
    show ?thesis using False by (auto simp: sc_cmd_dispatch_short [OF assms(1) sh])
  qed
qed


lemma example_ids_distinct: "sc_cmd_ids_distinct example_supercan"
  by (simp add: sc_cmd_ids_distinct_def example_supercan_def)

theorem sc_cmd_error_replies_witness:
  "sc_cmd_ids_distinct example_supercan
   \<and> sizeof_sc_msg_error example_supercan \<le> CMD_BUFFER_SIZE example_supercan
   \<and> (sc_cmd_too_short example_supercan 6 4 \<or> sc_cmd_unknown example_supercan 6)
   \<and> cmd_room example_supercan (sizeof_sc_msg_error example_supercan) example_idle_device
   \<and> (\<exists>s'. sc_cmd_dispatch example_supercan 6 4 [6, 4, 0, 0] example_idle_device
               = Some (False, s') \<and>
            cans_can s' = cans_can example_idle_device \<and>
            usb_can s' = usb_can example_idle_device \<and>
            effects s' = [Write_cmd False 0 (Msg_error 255)])"
proof -
  have h1: "sc_cmd_ids_distinct example_supercan" by (rule example_ids_distinct)
  have h2: "sizeof_sc_msg_error example_supercan \<le> CMD_BUFFER_SIZE example_supercan"
    by (simp add: example_supercan_def)
  have h3: "sc_cmd_too_short example_supercan 6 4 \<or> sc_cmd_unknown example_supercan 6"
    by (simp add: sc_cmd_too_short_def example_supercan_def)
  have nu: "\<not> sc_cmd_unknown example_supercan 6"
    by (simp add: sc_cmd_unknown_def example_supercan_def)
  have room: "cmd_room example_supercan (sizeof_sc_msg_error example_supercan) example_idle_device"
    by (simp add: cmd_room_def example_supercan_def example_idle_device_def
        example_device_def example_ep_def)
  have st: "effects example_idle_device = []" "tx_bank (usb_cmd example_idle_device) = False"
    "tx_offsets (usb_cmd example_idle_device) False = 0"
    by (simp_all add: example_idle_device_def example_device_def example_ep_def)
  have sh: "SC_ERROR_SHORT example_supercan = 255" by (simp add: example_supercan_def)
  from sc_cmd_error_replies [OF h1 h2, of 6 4 "[6, 4, 0, 0]" example_idle_device] h3
  have "\<exists>s'. sc_cmd_dispatch example_supercan 6 4 [6, 4, 0, 0] example_idle_device
               = Some (False, s') \<and>
            cans_can s' = cans_can example_idle_device \<and>
            usb_can s' = usb_can example_idle_device \<and>
            effects s' = [Write_cmd False 0 (Msg_error 255)]"
    using room nu by (simp add: st sh)
  then show ?thesis using h1 h2 h3 room by blast
qed

text \<open>
  The claim as stated fails when the active command bank is full and the other bank is
  still in flight: an unknown command (id 99) and a short bit-timing command are both
  processed without any reply being written.
\<close>

theorem sc_cmd_error_replies_counterexample:
  "sc_cmd_unknown example_supercan 99
   \<and> sc_cmd_dispatch example_supercan 99 2 [99, 2] example_cmd_full_device
       = Some (False, example_cmd_full_device)
   \<and> effects example_cmd_full_device = []
   \<and> sc_cmd_too_short example_supercan 6 4
   \<and> sc_cmd_dispatch example_supercan 6 4 [6, 4, 0, 0] example_cmd_full_device
       = Some (False, example_cmd_full_device)"
proof -
  have u: "sc_cmd_unknown example_supercan 99"
    by (simp add: sc_cmd_unknown_def example_supercan_def)
  have sh: "sc_cmd_too_short example_supercan 6 4"
    by (simp add: sc_cmd_too_short_def example_supercan_def)
  have h2: "sizeof_sc_msg_error example_supercan \<le> CMD_BUFFER_SIZE example_supercan"
    by (simp add: example_supercan_def)
  have nr: "\<not> cmd_room example_supercan (sizeof_sc_msg_error example_supercan)
      example_cmd_full_device"
    by (simp add: cmd_room_def example_supercan_def example_cmd_full_device_def
        example_device_def example_ep_def)
  have nrdy: "\<not> sc_cmd_bulk_in_ep_ready example_cmd_full_device"
    by (simp add: sc_cmd_bulk_in_ep_ready_def example_cmd_full_device_def
        example_device_def example_ep_def)
  have p: "\<And>e. sc_cmd_place_error_reply example_supercan e example_cmd_full_device
      = Some example_cmd_full_device"
    using nr nrdy by (simp add: sc_cmd_place_error_reply_cases [OF h2])
  have e: "effects example_cmd_full_device = []"
    by (simp add: example_cmd_full_device_def example_device_def)
  show ?thesis
    using u sh e
    by (simp add: sc_cmd_dispatch_unknown [OF u]
        sc_cmd_dispatch_short [OF example_ids_distinct sh] p)
qed

section \<open>Feature and bit-timing commands\<close>

lemma popcount_32: "builtin_popcount 32 = 1"
  by (simp add: builtin_popcount_def upt_rec [of _ "numeral n" for n] bit_numeral_simps)

lemma sc_cmd_features_or:
  assumes "feat_op tmsg = SC_FEAT_OP_OR H" "SC_FEAT_OP_OR H \<noteq> SC_FEAT_OP_CLEAR H"
  shows "sc_cmd_features H tmsg can =
     (if builtin_popcount (feat_arg tmsg AND
            (SC_FEATURE_FLAG_MON_MODE H OR SC_FEATURE_FLAG_RES_MODE H
               OR SC_FEATURE_FLAG_EXT_LOOP_MODE H)) > 1
      then (SC_ERROR_PARAM H, can)
      else if feat_arg tmsg AND NOT (ucast (sc_board_can_feat_perm H)) \<noteq> 0
      then (SC_ERROR_UNSUPPORTED H, can)
      else (SC_ERROR_NONE H, can\<lparr>features := features can OR ucast (feat_arg tmsg)\<rparr>))"
  using assms by (simp add: sc_cmd_features_def Let_def)

lemma example_idle_cmd:
  "effects example_idle_device = []" "tx_bank (usb_cmd example_idle_device) = False"
  "tx_offsets (usb_cmd example_idle_device) = (\<lambda>b. 0)"
  "cans_can example_idle_device = example_can"
  by (simp_all add: example_idle_device_def example_device_def example_ep_def)

text \<open>
  Claim C3 at its failing input. On a board whose configurable features (229) include
  the monitor-mode flag (32) and whose permanent features (8) do not, a feature-set OR
  request for monitor mode alone sets a single mode flag and asks only for flags inside
  the union of permanent and configurable features. The claim says it is OR-ed into the
  active set without error. The code reads \<open>conf\<close> with \<open>sc_board_can_feat_perm\<close>,
  so the request is checked against the permanent features only: it is answered with
  \<open>SC_ERROR_UNSUPPORTED\<close> and the active feature set stays as it was.
\<close>

theorem sc_cmd_features_configurable_flag_rejected:
  "(32::u32) AND NOT (ucast (sc_board_can_feat_perm example_supercan
                             OR sc_board_can_feat_conf example_supercan)) = 0
   \<and> builtin_popcount (32 AND (SC_FEATURE_FLAG_MON_MODE example_supercan
          OR SC_FEATURE_FLAG_RES_MODE example_supercan
          OR SC_FEATURE_FLAG_EXT_LOOP_MODE example_supercan)) = 1
   \<and> sc_cmd_features example_supercan
        \<lparr>feat_op = SC_FEAT_OP_OR example_supercan, feat_arg = 32\<rparr> example_can
      = (SC_ERROR_UNSUPPORTED example_supercan, example_can)
   \<and> map_option (\<lambda>r. (features (cans_can (snd r)), effects (snd r)))
        (sc_cmd_dispatch example_supercan 8 8 [8, 8, 1, 0, 32, 0, 0, 0] example_idle_device)
      = Some (features example_can, [Write_cmd False 0 (Msg_error 252)])"
proof -
  have a: "(32::u32) AND NOT (ucast (sc_board_can_feat_perm example_supercan
                             OR sc_board_can_feat_conf example_supercan)) = 0"
    by (simp add: example_supercan_def)
  have b: "builtin_popcount (32 AND (SC_FEATURE_FLAG_MON_MODE example_supercan
          OR SC_FEATURE_FLAG_RES_MODE example_supercan
          OR SC_FEATURE_FLAG_EXT_LOOP_MODE example_supercan)) = 1"
    by (simp add: example_supercan_def popcount_32)
  have op: "feat_op \<lparr>feat_op = SC_FEAT_OP_OR example_supercan, feat_arg = 32\<rparr>
      = SC_FEAT_OP_OR example_supercan" by simp
  have ne: "SC_FEAT_OP_OR example_supercan \<noteq> SC_FEAT_OP_CLEAR example_supercan"
    by (simp add: example_supercan_def)
  have u: "(32::u32) AND NOT (ucast (sc_board_can_feat_perm example_supercan)) \<noteq> 0"
    by (simp add: example_supercan_def)
  have c: "sc_cmd_features example_supercan
        \<lparr>feat_op = SC_FEAT_OP_OR example_supercan, feat_arg = 32\<rparr> example_can
      = (SC_ERROR_UNSUPPORTED example_supercan, example_can)"
    using b u by (simp add: sc_cmd_features_or [OF op ne])
  have dec: "as_sc_msg_features example_supercan [8, 8, 1, 0, 32, 0, 0, 0]
      = \<lparr>feat_op = SC_FEAT_OP_OR example_supercan, feat_arg = 32\<rparr>"
    by (simp add: example_supercan_def example_as_features_def)
  have h2: "sizeof_sc_msg_error example_supercan \<le> CMD_BUFFER_SIZE example_supercan"
    by (simp add: example_supercan_def)
  have room: "cmd_room example_supercan (sizeof_sc_msg_error example_supercan)
      (example_idle_device\<lparr>cans_can := example_can\<rparr>)"
    by (simp add: cmd_room_def example_supercan_def example_idle_cmd)
  have d: "sc_cmd_dispatch example_supercan 8 8 [8, 8, 1, 0, 32, 0, 0, 0] example_idle_device
      = map_option (Pair False)
          (sc_cmd_place_error_reply example_supercan (SC_ERROR_UNSUPPORTED example_supercan)
             (example_idle_device\<lparr>cans_can := example_can\<rparr>))"
    unfolding sc_cmd_dispatch_def dec [symmetric]
    by (simp add: example_idle_cmd c [unfolded dec [symmetric]])
      (simp add: example_supercan_def)
  have e: "map_option (\<lambda>r. (features (cans_can (snd r)), effects (snd r)))
        (sc_cmd_dispatch example_supercan 8 8 [8, 8, 1, 0, 32, 0, 0, 0] example_idle_device)
      = Some (features example_can, [Write_cmd False 0 (Msg_error 252)])"
    unfolding d sc_cmd_place_error_reply_cases [OF h2]
    using room
    by (simp add: cmd_place_def Let_def example_idle_cmd) (simp add: example_supercan_def)
  show ?thesis using a b c e by blast
qed


theorem sc_cmd_features_configurable_flag_rejected_witness:
  "fst (sc_cmd_features example_supercan
          \<lparr>feat_op = SC_FEAT_OP_OR example_supercan, feat_arg = 32\<rparr> example_can)
     = SC_ERROR_UNSUPPORTED example_supercan
   \<and> features (snd (sc_cmd_features example_supercan
          \<lparr>feat_op = SC_FEAT_OP_OR example_supercan, feat_arg = 32\<rparr> example_can))
     = features example_can"
  using sc_cmd_features_configurable_flag_rejected by simp

lemma tu_clamp16:
  "lo \<le> hi \<Longrightarrow> lo \<le> tu_max16 lo (tu_min16 x hi) \<and> tu_max16 lo (tu_min16 x hi) \<le> hi"
  by (auto simp: tu_max16_def tu_min16_def)

lemma tu_clamp8:
  "lo \<le> hi \<Longrightarrow> lo \<le> tu_max8 lo (tu_min8 x hi) \<and> tu_max8 lo (tu_min8 x hi) \<le> hi"
  by (auto simp: tu_max8_def tu_min8_def)

lemma bt_clamp_brp_above_max:
  "brp (bt_min r) \<le> brp (bt_max r) \<Longrightarrow> brp (bt_max r) < brp tmsg \<Longrightarrow>
   brp (bt_clamp r tmsg) = brp (bt_max r)"
  by (auto simp: bt_clamp_def tu_max16_def tu_min16_def)

lemma sc_cmd_dispatch_nm_bittiming:
  assumes "sc_cmd_ids_distinct H" "\<not> msg_len < sizeof_sc_msg_bittiming H"
  shows "sc_cmd_dispatch H (SC_MSG_NM_BITTIMING H) msg_len msg s =
     map_option (Pair False)
       (sc_cmd_place_error_reply H (SC_CAN_ERROR_NONE H)
          (s\<lparr>effects := effects s @
                [Board_nm_bit_timing_set
                   (bt_clamp (sc_board_can_nm_bit_timing_range H) (as_sc_msg_bittiming H msg))]\<rparr>))"
  using sc_cmd_ids_distinctD(1) [OF assms(1)] assms(2)
  by (simp add: sc_cmd_dispatch_def Let_def)

lemma sc_cmd_dispatch_dt_bittiming:
  assumes "sc_cmd_ids_distinct H" "\<not> msg_len < sizeof_sc_msg_bittiming H"
  shows "sc_cmd_dispatch H (SC_MSG_DT_BITTIMING H) msg_len msg s =
     map_option (Pair False)
       (sc_cmd_place_error_reply H (SC_CAN_ERROR_NONE H)
          (s\<lparr>effects := effects s @
                [Board_nm_bit_timing_set
                   (bt_clamp (sc_board_can_dt_bit_timing_range H) (as_sc_msg_bittiming H msg))]\<rparr>))"
  using sc_cmd_ids_distinctD(2) [OF assms(1)] assms(2)
  by (simp add: sc_cmd_dispatch_def Let_def)

text \<open>
  Claim C4 at its failing input. A data bit-timing message of sufficient length with
  \<open>brp = 1000\<close> (above the data maximum 32), \<open>sjw = 1\<close>, \<open>tseg1 = 5\<close>,
  \<open>tseg2 = 2\<close> is clamped into the data range and accepted, but the clamped timing
  is handed to \<open>sc_board_can_nm_bit_timing_set\<close>: the nominal timing is overwritten
  and the data timing setter is never called.
\<close>

theorem sc_cmd_dt_bittiming_sets_nominal:
  "map_option (\<lambda>r. effects (snd r))
     (sc_cmd_dispatch example_supercan (SC_MSG_DT_BITTIMING example_supercan) 8
        [7, 8, 1, 2, 232, 3, 5, 0] example_idle_device)
   = Some [Board_nm_bit_timing_set \<lparr>brp = 32, tseg1 = 5, tseg2 = 2, sjw = 1\<rparr>,
           Write_cmd False 0 (Msg_error 0)]"
proof -
  have h1: "\<not> (8::nat) < sizeof_sc_msg_bittiming example_supercan"
    by (simp add: example_supercan_def)
  have h2: "sizeof_sc_msg_error example_supercan \<le> CMD_BUFFER_SIZE example_supercan"
    by (simp add: example_supercan_def)
  have dec: "as_sc_msg_bittiming example_supercan [7, 8, 1, 2, 232, 3, 5, 0]
      = \<lparr>brp = 1000, tseg1 = 5, tseg2 = 2, sjw = 1\<rparr>"
    by (simp add: example_supercan_def example_as_bittiming_def)
  have cl: "bt_clamp (sc_board_can_dt_bit_timing_range example_supercan)
      \<lparr>brp = 1000, tseg1 = 5, tseg2 = 2, sjw = 1\<rparr> = \<lparr>brp = 32, tseg1 = 5, tseg2 = 2, sjw = 1\<rparr>"
    by (simp add: bt_clamp_def example_supercan_def example_dt_range_def
        tu_max16_def tu_min16_def tu_max8_def tu_min8_def)
  have room: "\<And>es. cmd_room example_supercan (sizeof_sc_msg_error example_supercan)
      (example_idle_device\<lparr>effects := es\<rparr>)"
    by (simp add: cmd_room_def example_supercan_def example_idle_cmd)
  show ?thesis
    unfolding sc_cmd_dispatch_dt_bittiming [OF example_ids_distinct h1] dec cl
      sc_cmd_place_error_reply_cases [OF h2]
    using room
    by (simp add: cmd_place_def Let_def example_idle_cmd) (simp add: example_supercan_def)
qed

theorem sc_cmd_dt_bittiming_sets_nominal_witness:
  "map_option (\<lambda>r. effects (snd r))
     (sc_cmd_dispatch example_supercan (SC_MSG_DT_BITTIMING example_supercan) 8
        [7, 8, 1, 2, 232, 3, 5, 0] example_idle_device)
   \<noteq> Some [Board_dt_bit_timing_set \<lparr>brp = 32, tseg1 = 5, tseg2 = 2, sjw = 1\<rparr>,
            Write_cmd False 0 (Msg_error 0)]"
  unfolding sc_cmd_dt_bittiming_sets_nominal by simp
section \<open>Message parsing of the two OUT endpoints\<close>

lemma effects_extend_refl: "effects_extend s s"
  by (simp add: effects_extend_def)

lemma effects_extend_trans:
  "effects_extend s s1 \<Longrightarrow> effects_extend s1 s2 \<Longrightarrow> effects_extend s s2"
  by (auto simp: effects_extend_def)

lemma effects_extend_cmd_place: "effects_extend s s0 \<Longrightarrow> effects_extend s (cmd_place n m s0)"
  by (auto simp: effects_extend_def cmd_place_def Let_def)

lemma effects_extend_cmd_submit:
  "effects_extend s s0 \<Longrightarrow> effects_extend s (sc_cmd_bulk_in_submit s0)"
  by (auto simp: effects_extend_def sc_cmd_bulk_in_submit_def Let_def)

lemma effects_extend_can_place: "effects_extend s s0 \<Longrightarrow> effects_extend s (can_place n m s0)"
  by (auto simp: effects_extend_def can_place_def Let_def)

lemma effects_extend_can_place_at:
  "effects_extend s s0 \<Longrightarrow> effects_extend s (can_place_at beg n m s0)"
  by (auto simp: effects_extend_def can_place_at_def Let_def)

lemma effects_extend_can_submit:
  "effects_extend s s0 \<Longrightarrow> effects_extend s (sc_can_bulk_in_submit H s0)"
  by (auto simp: effects_extend_def sc_can_bulk_in_submit_def sc_can_bulk_in_zlp_fix_def Let_def)

text \<open>The retry loops of the replies end after at most one submit.\<close>

lemma send_dev_info_cases:
  assumes "sizeof_sc_msg_dev_info H \<le> CMD_BUFFER_SIZE H"
  shows "send_dev_info H s =
     Some (if cmd_room H (sizeof_sc_msg_dev_info H) s then
             cmd_place (sizeof_sc_msg_dev_info H)
               (Msg_device_info (sc_board_can_feat_perm H) (sc_board_can_feat_conf H)) s
           else if sc_cmd_bulk_in_ep_ready s then
             cmd_place (sizeof_sc_msg_dev_info H)
               (Msg_device_info (sc_board_can_feat_perm H) (sc_board_can_feat_conf H))
               (sc_cmd_bulk_in_submit s)
           else s)"
proof (cases "cmd_room H (sizeof_sc_msg_dev_info H) s")
  case True
  then show ?thesis by (subst send_dev_info.simps) simp
next
  case False
  show ?thesis
  proof (cases "sc_cmd_bulk_in_ep_ready s")
    case True
    have r: "cmd_room H (sizeof_sc_msg_dev_info H) (sc_cmd_bulk_in_submit s)"
      by (rule cmd_room_after_submit [OF True assms])
    have "send_dev_info H (sc_cmd_bulk_in_submit s)
        = Some (cmd_place (sizeof_sc_msg_dev_info H)
               (Msg_device_info (sc_board_can_feat_perm H) (sc_board_can_feat_conf H))
               (sc_cmd_bulk_in_submit s))"
      using r by (subst send_dev_info.simps) simp
    then show ?thesis using False True by (subst send_dev_info.simps) simp
  next
    case F2: False
    then show ?thesis using False by (subst send_dev_info.simps) simp
  qed
qed

lemma send_can_info_cases:
  assumes "sizeof_sc_msg_can_info H \<le> CMD_BUFFER_SIZE H"
  shows "send_can_info H s =
     Some (if cmd_room H (sizeof_sc_msg_can_info H) s then
             cmd_place (sizeof_sc_msg_can_info H)
               (Msg_can_info (sc_board_can_nm_bit_timing_range H)
                  (sc_board_can_dt_bit_timing_range H)) s
           else if sc_cmd_bulk_in_ep_ready s then
             cmd_place (sizeof_sc_msg_can_info H)
               (Msg_can_info (sc_board_can_nm_bit_timing_range H)
                  (sc_board_can_dt_bit_timing_range H))
               (sc_cmd_bulk_in_submit s)
           else s)"
proof (cases "cmd_room H (sizeof_sc_msg_can_info H) s")
  case True
  then show ?thesis by (subst send_can_info.simps) simp
next
  case False
  show ?thesis
  proof (cases "sc_cmd_bulk_in_ep_ready s")
    case True
    have r: "cmd_room H (sizeof_sc_msg_can_info H) (sc_cmd_bulk_in_submit s)"
      by (rule cmd_room_after_submit [OF True assms])
    have "send_can_info H (sc_cmd_bulk_in_submit s)
        = Some (cmd_place (sizeof_sc_msg_can_info H)
               (Msg_can_info (sc_board_can_nm_bit_timing_range H)
                  (sc_board_can_dt_bit_timing_range H))
               (sc_cmd_bulk_in_submit s))"
      using r by (subst send_can_info.simps) simp
    then show ?thesis using False True by (subst send_can_info.simps) simp
  next
    case F2: False
    then show ?thesis using False by (subst send_can_info.simps) simp
  qed
qed

lemma can_room_after_submit:
  assumes "sc_can_bulk_in_ep_ready s" "bytes \<le> MSG_BUFFER_SIZE H" "MSG_BUFFER_SIZE H \<le> 65532"
  shows "can_room H bytes (sc_can_bulk_in_submit H s)"
proof -
  have o: "tx_offsets (usb_can (sc_can_bulk_in_submit H s))
             (tx_bank (usb_can (sc_can_bulk_in_submit H s))) = 0"
    using assms(1)
    by (simp add: sc_can_bulk_in_ep_ready_def sc_can_bulk_in_submit_def
        sc_can_bulk_in_zlp_fix_def Let_def)
  have "int (MSG_BUFFER_SIZE H) mod 2 ^ 32 = int (MSG_BUFFER_SIZE H)"
    using assms(3) by simp
  then show ?thesis using assms(2) by (simp add: can_room_def o)
qed

lemma send_txr_cases:
  assumes "can_sizes_fit H"
  shows "send_txr H beg track_id ts s =
     Some (if can_room H (sizeof_sc_msg_can_txr H) s then
             can_place_at beg (sizeof_sc_msg_can_txr H)
               (Msg_can_txr track_id (SC_CAN_FRAME_FLAG_DRP H) ts) s
           else if sc_can_bulk_in_ep_ready s then
             can_place_at beg (sizeof_sc_msg_can_txr H)
               (Msg_can_txr track_id (SC_CAN_FRAME_FLAG_DRP H) ts) (sc_can_bulk_in_submit H s)
           else s\<lparr>cans_can := (cans_can s)\<lparr>desync := True\<rparr>\<rparr>)"
proof (cases "can_room H (sizeof_sc_msg_can_txr H) s")
  case True
  then show ?thesis by (subst send_txr.simps) simp
next
  case False
  show ?thesis
  proof (cases "sc_can_bulk_in_ep_ready s")
    case True
    have r: "can_room H (sizeof_sc_msg_can_txr H) (sc_can_bulk_in_submit H s)"
      using assms by (intro can_room_after_submit [OF True]) (simp_all add: can_sizes_fit_def)
    have "send_txr H beg track_id ts (sc_can_bulk_in_submit H s)
        = Some (can_place_at beg (sizeof_sc_msg_can_txr H)
               (Msg_can_txr track_id (SC_CAN_FRAME_FLAG_DRP H) ts) (sc_can_bulk_in_submit H s))"
      using r by (subst send_txr.simps) simp
    then show ?thesis using False True by (subst send_txr.simps) simp
  next
    case F2: False
    then show ?thesis using False by (subst send_txr.simps) simp
  qed
qed

text \<open>Each reply returns, in a state that extends the one it started from.\<close>

lemma sc_cmd_place_error_reply_result:
  assumes "cmd_sizes_fit H" "effects_extend s s0"
  shows "\<exists>s'. sc_cmd_place_error_reply H e s0 = Some s' \<and> effects_extend s s'"
proof -
  have f: "sizeof_sc_msg_error H \<le> CMD_BUFFER_SIZE H"
    using assms(1) by (simp add: cmd_sizes_fit_def)
  show ?thesis
    unfolding sc_cmd_place_error_reply_cases [OF f]
    by (simp add: effects_extend_cmd_place effects_extend_cmd_submit assms(2))
qed

lemma send_dev_info_result:
  assumes "cmd_sizes_fit H" "effects_extend s s0"
  shows "\<exists>s'. send_dev_info H s0 = Some s' \<and> effects_extend s s'"
proof -
  have f: "sizeof_sc_msg_dev_info H \<le> CMD_BUFFER_SIZE H"
    using assms(1) by (simp add: cmd_sizes_fit_def)
  show ?thesis
    unfolding send_dev_info_cases [OF f]
    by (simp add: effects_extend_cmd_place effects_extend_cmd_submit assms(2))
qed

lemma send_can_info_result:
  assumes "cmd_sizes_fit H" "effects_extend s s0"
  shows "\<exists>s'. send_can_info H s0 = Some s' \<and> effects_extend s s'"
proof -
  have f: "sizeof_sc_msg_can_info H \<le> CMD_BUFFER_SIZE H"
    using assms(1) by (simp add: cmd_sizes_fit_def)
  show ?thesis
    unfolding send_can_info_cases [OF f]
    by (simp add: effects_extend_cmd_place effects_extend_cmd_submit assms(2))
qed

lemma send_txr_result:
  assumes "can_sizes_fit H" "effects_extend s s0"
  shows "\<exists>s'. send_txr H beg track_id ts s0 = Some s' \<and> effects_extend s s'"
proof -
  have d: "effects_extend s (s0\<lparr>cans_can := c\<rparr>)" for c
    using assms(2) by (simp add: effects_extend_def)
  show ?thesis
    unfolding send_txr_cases [OF assms(1)]
    by (simp add: effects_extend_can_place_at effects_extend_can_submit assms(2) d)
qed

text \<open>Rules that take such a result through the branches of a handler.\<close>

lemma result_Some:
  "effects_extend s s' \<Longrightarrow> \<exists>r. Some (b, s') = Some r \<and> effects_extend s (snd r)"
  by simp

lemma result_map_option:
  "\<exists>s'. x = Some s' \<and> effects_extend s s'
     \<Longrightarrow> \<exists>r. map_option (Pair b) x = Some r \<and> effects_extend s (snd r)"
  by auto

lemma result_if:
  "\<exists>r. a = Some r \<and> P r \<Longrightarrow> \<exists>r. b = Some r \<and> P r
     \<Longrightarrow> \<exists>r. (if c then a else b) = Some r \<and> P r"
  by simp

lemma result_case_prod:
  "(\<And>a b. \<exists>r. f a b = Some r \<and> P r) \<Longrightarrow> \<exists>r. (case p of (a, b) \<Rightarrow> f a b) = Some r \<and> P r"
  by (cases p) simp

lemma sc_cmd_dispatch_result:
  assumes "cmd_sizes_fit H"
  shows "\<exists>r. sc_cmd_dispatch H msg_id msg_len msg s = Some r \<and> effects_extend s (snd r)"
  unfolding sc_cmd_dispatch_def Let_def
  apply (intro result_if result_case_prod result_map_option result_Some
      sc_cmd_place_error_reply_result [OF assms] send_dev_info_result [OF assms]
      send_can_info_result [OF assms])
  apply (simp_all add: effects_extend_def)
  done

lemma sc_process_msg_can_tx_result:
  assumes "can_sizes_fit H"
  shows "\<exists>s'. sc_process_msg_can_tx H hw msg_len msg s = Some s' \<and> effects_extend s s'"
  unfolding sc_process_msg_can_tx_def Let_def
  apply (intro result_if send_txr_result [OF assms])
  apply (simp_all add: effects_extend_def)
  done

text \<open>The message loops: where they stop, and how they go on.\<close>

lemma sc_cmd_bulk_out_loop_malformed:
  "sc_msg_malformed buf in_end p \<Longrightarrow> sc_cmd_bulk_out_loop H buf in_end p s = Some s"
  by (subst sc_cmd_bulk_out_loop.simps) (auto simp: sc_msg_malformed_def Let_def)

lemma sc_can_bulk_out_loop_malformed:
  "sc_msg_malformed buf in_end p \<Longrightarrow> sc_can_bulk_out_loop H hw buf in_end p s = Some s"
  by (subst sc_can_bulk_out_loop.simps) (auto simp: sc_msg_malformed_def Let_def)

lemma sc_cmd_bulk_out_loop_at_end: "sc_cmd_bulk_out_loop H buf in_end in_end s = Some s"
  by (rule sc_cmd_bulk_out_loop_malformed) (simp add: sc_msg_malformed_def SC_MSG_HEADER_LEN_def)

lemma sc_cmd_bulk_out_loop_terminator:
  assumes "sc_msg_terminator buf in_end p" "SC_MSG_EOF H = 0"
  shows "sc_cmd_bulk_out_loop H buf in_end p s = Some s"
proof (cases "buf ! (p + 1) = 0 \<or> in_end < p + unat (buf ! (p + 1))")
  case True
  then show ?thesis
    by (subst sc_cmd_bulk_out_loop.simps) (auto simp: Let_def)
next
  case False
  then have i: "buf ! p = 0" using assms(1) by (simp add: sc_msg_terminator_def)
  have l: "unat (buf ! (p + 1)) \<noteq> 0" using False by (simp add: unat_eq_0)
  have d: "sc_cmd_dispatch H 0 n m s = Some (True, s)" for n m
    using assms(2) by (simp add: sc_cmd_dispatch_def)
  show ?thesis
    using assms(1) False l
    by (subst sc_cmd_bulk_out_loop.simps)
       (simp add: Let_def i d sc_cmd_bulk_out_loop_at_end sc_msg_terminator_def)
qed

lemma sc_can_bulk_out_loop_terminator:
  assumes "sc_msg_terminator buf in_end p"
  shows "sc_can_bulk_out_loop H hw buf in_end p s = Some s"
  using assms
  by (subst sc_can_bulk_out_loop.simps) (auto simp: sc_msg_terminator_def Let_def)

lemma sc_cmd_bulk_out_loop_step:
  assumes "\<not> sc_msg_malformed buf in_end p" "buf ! (p + 1) \<noteq> 0"
  shows "sc_cmd_bulk_out_loop H buf in_end p s =
     (case sc_cmd_dispatch H (buf ! p) (unat (buf ! (p + 1)))
             (take (unat (buf ! (p + 1))) (drop p buf)) s of
        None \<Rightarrow> None
      | Some (stop, s') \<Rightarrow>
          sc_cmd_bulk_out_loop H buf in_end
            (if stop then in_end else p + unat (buf ! (p + 1))) s')"
proof -
  have l: "unat (buf ! (p + 1)) \<noteq> 0" using assms(2) by (simp add: unat_eq_0)
  show ?thesis
    using assms(1) l
    by (subst sc_cmd_bulk_out_loop.simps)
       (simp add: sc_msg_malformed_def Let_def cong: option.case_cong if_cong)
qed

lemma sc_can_bulk_out_loop_step:
  assumes "\<not> sc_msg_malformed buf in_end p" "\<not> sc_msg_terminator buf in_end p"
  shows "sc_can_bulk_out_loop H hw buf in_end p s =
     (case (if buf ! p = SC_MSG_CAN_TX H
            then sc_process_msg_can_tx H (hw p) (unat (buf ! (p + 1)))
                   (take (unat (buf ! (p + 1))) (drop p buf)) s
            else Some s) of
        None \<Rightarrow> None
      | Some s' \<Rightarrow> sc_can_bulk_out_loop H hw buf in_end (p + unat (buf ! (p + 1))) s')"
proof -
  have l: "unat (buf ! (p + 1)) \<noteq> 0" "buf ! p \<noteq> 0"
    using assms by (auto simp: unat_eq_0 sc_msg_malformed_def sc_msg_terminator_def)
  show ?thesis
    using assms(1) l
    by (subst sc_can_bulk_out_loop.simps)
       (simp add: sc_msg_malformed_def Let_def cong: option.case_cong)
qed

lemma sc_cmd_bulk_out_loop_len0:
  "buf ! (p + 1) = 0 \<Longrightarrow> sc_cmd_bulk_out_loop H buf in_end p s = Some s"
  by (subst sc_cmd_bulk_out_loop.simps) (auto simp: Let_def)

lemma sc_msg_next_less:
  assumes "\<not> sc_msg_malformed buf in_end p" "buf ! (p + 1) \<noteq> 0"
  shows "in_end - (if stop then in_end else p + unat (buf ! (p + 1))) < in_end - p"
proof -
  have "unat (buf ! (p + 1)) \<noteq> 0" using assms(2) by (simp add: unat_eq_0)
  then show ?thesis
    using assms(1) by (auto simp: sc_msg_malformed_def SC_MSG_HEADER_LEN_def)
qed

text \<open>Both loops return, in a state that extends the one they started from.\<close>

lemma sc_cmd_bulk_out_loop_result:
  assumes "cmd_sizes_fit H"
  shows "\<exists>s'. sc_cmd_bulk_out_loop H buf in_end p s = Some s' \<and> effects_extend s s'"
proof (induction "in_end - p" arbitrary: p s rule: less_induct)
  case less
  show ?case
  proof (cases "sc_msg_malformed buf in_end p \<or> buf ! (p + 1) = 0")
    case True
    then have "sc_cmd_bulk_out_loop H buf in_end p s = Some s"
      using sc_cmd_bulk_out_loop_malformed sc_cmd_bulk_out_loop_len0 by blast
    then show ?thesis by (simp add: effects_extend_refl)
  next
    case False
    then have m: "\<not> sc_msg_malformed buf in_end p" and l: "buf ! (p + 1) \<noteq> 0" by simp_all
    let ?len = "unat (buf ! (p + 1))"
    obtain r where d: "sc_cmd_dispatch H (buf ! p) ?len (take ?len (drop p buf)) s = Some r"
      and e: "effects_extend s (snd r)"
      using sc_cmd_dispatch_result [OF assms] by blast
    let ?q = "if fst r then in_end else p + ?len"
    have "in_end - ?q < in_end - p" by (rule sc_msg_next_less [OF m l])
    from less.hyps [OF this]
    obtain s' where r: "sc_cmd_bulk_out_loop H buf in_end ?q (snd r) = Some s'"
      and e': "effects_extend (snd r) s'" by blast
    have "sc_cmd_bulk_out_loop H buf in_end p s = Some s'"
      unfolding sc_cmd_bulk_out_loop_step [OF m l] d using r
      by (simp add: case_prod_unfold)
    then show ?thesis using effects_extend_trans [OF e e'] by simp
  qed
qed

lemma sc_can_bulk_out_loop_result:
  assumes "can_sizes_fit H"
  shows "\<exists>s'. sc_can_bulk_out_loop H hw buf in_end p s = Some s' \<and> effects_extend s s'"
proof (induction "in_end - p" arbitrary: p s rule: less_induct)
  case less
  show ?case
  proof (cases "sc_msg_malformed buf in_end p \<or> sc_msg_terminator buf in_end p")
    case True
    then have "sc_can_bulk_out_loop H hw buf in_end p s = Some s"
      using sc_can_bulk_out_loop_malformed sc_can_bulk_out_loop_terminator by blast
    then show ?thesis by (simp add: effects_extend_refl)
  next
    case False
    then have m: "\<not> sc_msg_malformed buf in_end p" and t: "\<not> sc_msg_terminator buf in_end p"
      by simp_all
    have l: "buf ! (p + 1) \<noteq> 0"
      using m t by (auto simp: sc_msg_malformed_def sc_msg_terminator_def)
    let ?len = "unat (buf ! (p + 1))"
    let ?h = "if buf ! p = SC_MSG_CAN_TX H
              then sc_process_msg_can_tx H (hw p) ?len (take ?len (drop p buf)) s
              else Some s"
    have "\<exists>s1. ?h = Some s1 \<and> effects_extend s s1"
      by (simp add: sc_process_msg_can_tx_result [OF assms] effects_extend_refl)
    then obtain s1 where d: "?h = Some s1" and e: "effects_extend s s1" by blast
    have "in_end - (p + ?len) < in_end - p"
      using sc_msg_next_less [OF m l, of False] by simp
    from less.hyps [OF this]
    obtain s' where r: "sc_can_bulk_out_loop H hw buf in_end (p + ?len) s1 = Some s'"
      and e': "effects_extend s1 s'" by blast
    have "sc_can_bulk_out_loop H hw buf in_end p s = Some s'"
      unfolding sc_can_bulk_out_loop_step [OF m t] d using r by simp
    then show ?thesis using effects_extend_trans [OF e e'] by simp
  qed
qed

text \<open>Neither loop reads the buffer at or beyond the number of received bytes.\<close>

lemma sc_msg_slice_cong:
  assumes "take in_end buf' = take in_end buf" "p + n \<le> in_end"
  shows "take n (drop p buf') = take n (drop p buf)"
proof -
  have "take (n + p) buf' = take (n + p) (take in_end buf')"
    using assms(2) by (simp add: min_def add.commute)
  also have "\<dots> = take (n + p) (take in_end buf)" by (simp only: assms(1))
  also have "\<dots> = take (n + p) buf"
    using assms(2) by (simp add: min_def add.commute)
  finally show ?thesis by (simp only: take_drop)
qed

lemma sc_msg_nth_cong:
  assumes "take in_end buf' = take in_end buf" "i < in_end"
  shows "buf' ! i = buf ! i"
proof -
  have "buf' ! i = take in_end buf' ! i" using assms(2) by simp
  also have "\<dots> = take in_end buf ! i" by (simp only: assms(1))
  also have "\<dots> = buf ! i" using assms(2) by simp
  finally show ?thesis .
qed

lemma sc_msg_malformed_cong:
  assumes "take in_end buf' = take in_end buf"
  shows "sc_msg_malformed buf' in_end p = sc_msg_malformed buf in_end p"
proof (cases "in_end < p + SC_MSG_HEADER_LEN")
  case True
  then show ?thesis by (simp add: sc_msg_malformed_def)
next
  case False
  then have "p + 1 < in_end" by (simp add: SC_MSG_HEADER_LEN_def)
  from sc_msg_nth_cong [OF assms this]
  show ?thesis by (simp add: sc_msg_malformed_def)
qed

lemma sc_msg_header_cong:
  assumes "take in_end buf' = take in_end buf" "\<not> sc_msg_malformed buf in_end p"
  shows "buf' ! p = buf ! p" "buf' ! (p + 1) = buf ! (p + 1)"
    "take (unat (buf ! (p + 1))) (drop p buf') = take (unat (buf ! (p + 1))) (drop p buf)"
proof -
  have b: "p < in_end" "p + 1 < in_end" "p + unat (buf ! (p + 1)) \<le> in_end"
    using assms(2) by (simp_all add: sc_msg_malformed_def SC_MSG_HEADER_LEN_def)
  show "buf' ! p = buf ! p" by (rule sc_msg_nth_cong [OF assms(1) b(1)])
  show "buf' ! (p + 1) = buf ! (p + 1)" by (rule sc_msg_nth_cong [OF assms(1) b(2)])
  show "take (unat (buf ! (p + 1))) (drop p buf') = take (unat (buf ! (p + 1))) (drop p buf)"
    by (rule sc_msg_slice_cong [OF assms(1) b(3)])
qed

lemma sc_cmd_bulk_out_loop_cong:
  assumes "take in_end buf' = take in_end buf"
  shows "sc_cmd_bulk_out_loop H buf' in_end p s = sc_cmd_bulk_out_loop H buf in_end p s"
proof (induction "in_end - p" arbitrary: p s rule: less_induct)
  case less
  show ?case
  proof (cases "sc_msg_malformed buf in_end p")
    case True
    then have "sc_msg_malformed buf' in_end p" by (simp add: sc_msg_malformed_cong [OF assms])
    then show ?thesis using True by (simp add: sc_cmd_bulk_out_loop_malformed)
  next
    case m: False
    then have m': "\<not> sc_msg_malformed buf' in_end p"
      by (simp add: sc_msg_malformed_cong [OF assms])
    note h = sc_msg_header_cong [OF assms m]
    show ?thesis
    proof (cases "buf ! (p + 1) = 0")
      case True
      then show ?thesis using h(2) by (simp add: sc_cmd_bulk_out_loop_len0)
    next
      case l: False
      then have l': "buf' ! (p + 1) \<noteq> 0" using h(2) by simp
      let ?len = "unat (buf ! (p + 1))"
      show ?thesis
      proof (cases "sc_cmd_dispatch H (buf ! p) ?len (take ?len (drop p buf)) s")
        case None
        then show ?thesis
          unfolding sc_cmd_bulk_out_loop_step [OF m l] sc_cmd_bulk_out_loop_step [OF m' l'] h
          by simp
      next
        case (Some r)
        let ?q = "if fst r then in_end else p + ?len"
        have "in_end - ?q < in_end - p" by (rule sc_msg_next_less [OF m l])
        from less.hyps [OF this, of "snd r"] Some
        show ?thesis
          unfolding sc_cmd_bulk_out_loop_step [OF m l] sc_cmd_bulk_out_loop_step [OF m' l'] h
          by (simp add: case_prod_unfold)
      qed
    qed
  qed
qed

lemma sc_msg_terminator_cong:
  assumes "take in_end buf' = take in_end buf"
  shows "sc_msg_terminator buf' in_end p = sc_msg_terminator buf in_end p"
proof (cases "p + SC_MSG_HEADER_LEN \<le> in_end")
  case False
  then show ?thesis by (simp add: sc_msg_terminator_def)
next
  case True
  then have "p < in_end" "p + 1 < in_end" by (simp_all add: SC_MSG_HEADER_LEN_def)
  from sc_msg_nth_cong [OF assms this(1)] sc_msg_nth_cong [OF assms this(2)]
  show ?thesis by (simp add: sc_msg_terminator_def)
qed

lemma sc_can_bulk_out_loop_cong:
  assumes "take in_end buf' = take in_end buf"
  shows "sc_can_bulk_out_loop H hw buf' in_end p s = sc_can_bulk_out_loop H hw buf in_end p s"
proof (induction "in_end - p" arbitrary: p s rule: less_induct)
  case less
  show ?case
  proof (cases "sc_msg_malformed buf in_end p \<or> sc_msg_terminator buf in_end p")
    case True
    then have "sc_msg_malformed buf' in_end p \<or> sc_msg_terminator buf' in_end p"
      by (simp add: sc_msg_malformed_cong [OF assms] sc_msg_terminator_cong [OF assms])
    then have "sc_can_bulk_out_loop H hw buf' in_end p s = Some s"
      using sc_can_bulk_out_loop_malformed sc_can_bulk_out_loop_terminator by blast
    moreover have "sc_can_bulk_out_loop H hw buf in_end p s = Some s"
      using True sc_can_bulk_out_loop_malformed sc_can_bulk_out_loop_terminator by blast
    ultimately show ?thesis by simp
  next
    case False
    then have m: "\<not> sc_msg_malformed buf in_end p" and t: "\<not> sc_msg_terminator buf in_end p"
      by simp_all
    have m': "\<not> sc_msg_malformed buf' in_end p" and t': "\<not> sc_msg_terminator buf' in_end p"
      using m t by (simp_all add: sc_msg_malformed_cong [OF assms] sc_msg_terminator_cong [OF assms])
    note h = sc_msg_header_cong [OF assms m]
    have l: "buf ! (p + 1) \<noteq> 0"
      using m t by (auto simp: sc_msg_malformed_def sc_msg_terminator_def)
    let ?len = "unat (buf ! (p + 1))"
    have "in_end - (p + ?len) < in_end - p"
      using sc_msg_next_less [OF m l, of False] by simp
    from less.hyps [OF this]
    have ih: "\<And>s. sc_can_bulk_out_loop H hw buf' in_end (p + ?len) s
        = sc_can_bulk_out_loop H hw buf in_end (p + ?len) s" by simp
    show ?thesis
      unfolding sc_can_bulk_out_loop_step [OF m t] sc_can_bulk_out_loop_step [OF m' t'] h
      using ih by (simp split: option.split)
  qed
qed

lemma sc_cmd_bulk_out_result:
  assumes "cmd_sizes_fit H"
  shows "\<exists>s'. sc_cmd_bulk_out H buf n s = Some s' \<and> effects_extend s s'"
proof -
  let ?s1 = "s\<lparr>usb_cmd := (usb_cmd s)\<lparr>rx_bank := \<not> rx_bank (usb_cmd s)\<rparr>,
               effects := effects s @ [Edpt_xfer_cmd_out (\<not> rx_bank (usb_cmd s))]\<rparr>"
  have e1: "effects_extend s ?s1" by (simp add: effects_extend_def)
  obtain s2 where l: "sc_cmd_bulk_out_loop H buf n 0 ?s1 = Some s2" and e2: "effects_extend ?s1 s2"
    using sc_cmd_bulk_out_loop_result [OF assms] by blast
  have e: "effects_extend s s2" by (rule effects_extend_trans [OF e1 e2])
  show ?thesis
    by (simp add: sc_cmd_bulk_out_def Let_def l e effects_extend_cmd_submit)
qed

lemma sc_can_bulk_out_result:
  assumes "can_sizes_fit H"
  shows "\<exists>s'. sc_can_bulk_out H hw buf n s = Some s' \<and> effects_extend s s'"
proof -
  let ?s1 = "s\<lparr>usb_can := (usb_can s)\<lparr>rx_bank := \<not> rx_bank (usb_can s)\<rparr>,
               effects := effects s @ [Edpt_xfer_can_out (\<not> rx_bank (usb_can s))]\<rparr>"
  have e1: "effects_extend s ?s1" by (simp add: effects_extend_def)
  obtain s2 where l: "sc_can_bulk_out_loop H hw buf n 0 ?s1 = Some s2"
    and e2: "effects_extend ?s1 s2"
    using sc_can_bulk_out_loop_result [OF assms] by blast
  have e: "effects_extend s s2" by (rule effects_extend_trans [OF e1 e2])
  show ?thesis
    by (simp add: sc_can_bulk_out_def Let_def l e e1 effects_extend_can_submit)
qed

text \<open>
  Claim C6. On either channel, for every receive buffer \<open>buf\<close> of which \<open>n\<close> bytes
  were received: the callback and its message loop (from any offset \<open>p\<close>) return, and
  the effects at the return are the effects at the start followed by more, so that
  nothing done for an earlier message is undone; the result does not depend on the
  buffer beyond the first \<open>n\<close> bytes, that is, nothing at or past the received count is
  read; at a truncated header, at a declared length that reaches past the received
  bytes, and at a header with id 0 or length 0, the loop stops and returns the state as
  the messages before have left it; at any other header the message is handed to its
  handler and the loop goes on after it (on the command channel at the end of the
  buffer, when the handler says so). The replies are assumed to fit an empty bank, and
  \<open>SC_MSG_EOF\<close> to be 0, as in the protocol header.
\<close>

theorem sc_bulk_out_parsing:
  assumes "cmd_sizes_fit H" and "can_sizes_fit H" and "SC_MSG_EOF H = 0"
  shows "(\<exists>s'. sc_cmd_bulk_out H buf n s = Some s' \<and> effects_extend s s')
     \<and> (\<exists>s'. sc_can_bulk_out H hw buf n s = Some s' \<and> effects_extend s s')
     \<and> (\<exists>s'. sc_cmd_bulk_out_loop H buf n p s = Some s' \<and> effects_extend s s')
     \<and> (\<exists>s'. sc_can_bulk_out_loop H hw buf n p s = Some s' \<and> effects_extend s s')
     \<and> (take n buf' = take n buf \<longrightarrow>
          sc_cmd_bulk_out H buf' n s = sc_cmd_bulk_out H buf n s
          \<and> sc_can_bulk_out H hw buf' n s = sc_can_bulk_out H hw buf n s)
     \<and> (sc_msg_malformed buf n p \<or> sc_msg_terminator buf n p \<longrightarrow>
          sc_cmd_bulk_out_loop H buf n p s = Some s
          \<and> sc_can_bulk_out_loop H hw buf n p s = Some s)
     \<and> (\<not> sc_msg_malformed buf n p \<and> \<not> sc_msg_terminator buf n p \<longrightarrow>
          sc_cmd_bulk_out_loop H buf n p s =
            (case sc_cmd_dispatch H (buf ! p) (unat (buf ! (p + 1)))
                    (take (unat (buf ! (p + 1))) (drop p buf)) s of
               None \<Rightarrow> None
             | Some (stop, s') \<Rightarrow>
                 sc_cmd_bulk_out_loop H buf n
                   (if stop then n else p + unat (buf ! (p + 1))) s')
          \<and> sc_can_bulk_out_loop H hw buf n p s =
            (case (if buf ! p = SC_MSG_CAN_TX H
                   then sc_process_msg_can_tx H (hw p) (unat (buf ! (p + 1)))
                          (take (unat (buf ! (p + 1))) (drop p buf)) s
                   else Some s) of
               None \<Rightarrow> None
             | Some s' \<Rightarrow> sc_can_bulk_out_loop H hw buf n (p + unat (buf ! (p + 1))) s'))"
proof -
  have a: "\<exists>s'. sc_cmd_bulk_out H buf n s = Some s' \<and> effects_extend s s'"
    by (rule sc_cmd_bulk_out_result [OF assms(1)])
  have b: "\<exists>s'. sc_can_bulk_out H hw buf n s = Some s' \<and> effects_extend s s'"
    by (rule sc_can_bulk_out_result [OF assms(2)])
  have c: "\<exists>s'. sc_cmd_bulk_out_loop H buf n p s = Some s' \<and> effects_extend s s'"
    by (rule sc_cmd_bulk_out_loop_result [OF assms(1)])
  have d: "\<exists>s'. sc_can_bulk_out_loop H hw buf n p s = Some s' \<and> effects_extend s s'"
    by (rule sc_can_bulk_out_loop_result [OF assms(2)])
  have e: "sc_cmd_bulk_out H buf' n s = sc_cmd_bulk_out H buf n s
      \<and> sc_can_bulk_out H hw buf' n s = sc_can_bulk_out H hw buf n s"
    if "take n buf' = take n buf"
    unfolding sc_cmd_bulk_out_def sc_can_bulk_out_def
      sc_cmd_bulk_out_loop_cong [OF that] sc_can_bulk_out_loop_cong [OF that]
    by simp
  have f: "sc_cmd_bulk_out_loop H buf n p s = Some s
      \<and> sc_can_bulk_out_loop H hw buf n p s = Some s"
    if "sc_msg_malformed buf n p \<or> sc_msg_terminator buf n p"
  proof (cases "sc_msg_malformed buf n p")
    case True
    then show ?thesis
      by (simp add: sc_cmd_bulk_out_loop_malformed sc_can_bulk_out_loop_malformed)
  next
    case False
    then have "sc_msg_terminator buf n p" using that by simp
    then show ?thesis
      by (simp add: sc_cmd_bulk_out_loop_terminator [OF _ assms(3)]
          sc_can_bulk_out_loop_terminator)
  qed
  have g: "sc_cmd_bulk_out_loop H buf n p s =
            (case sc_cmd_dispatch H (buf ! p) (unat (buf ! (p + 1)))
                    (take (unat (buf ! (p + 1))) (drop p buf)) s of
               None \<Rightarrow> None
             | Some (stop, s') \<Rightarrow>
                 sc_cmd_bulk_out_loop H buf n
                   (if stop then n else p + unat (buf ! (p + 1))) s')
          \<and> sc_can_bulk_out_loop H hw buf n p s =
            (case (if buf ! p = SC_MSG_CAN_TX H
                   then sc_process_msg_can_tx H (hw p) (unat (buf ! (p + 1)))
                          (take (unat (buf ! (p + 1))) (drop p buf)) s
                   else Some s) of
               None \<Rightarrow> None
             | Some s' \<Rightarrow> sc_can_bulk_out_loop H hw buf n (p + unat (buf ! (p + 1))) s')"
    if m: "\<not> sc_msg_malformed buf n p" and t: "\<not> sc_msg_terminator buf n p"
  proof -
    have l: "buf ! (p + 1) \<noteq> 0"
      using m t by (auto simp: sc_msg_malformed_def sc_msg_terminator_def)
    show ?thesis
      using sc_cmd_bulk_out_loop_step [OF m l] sc_can_bulk_out_loop_step [OF m t] by blast
  qed
  show ?thesis
    using a b c d e f g by blast
qed

theorem sc_bulk_out_parsing_witness:
  "cmd_sizes_fit example_supercan \<and> can_sizes_fit example_supercan
   \<and> SC_MSG_EOF example_supercan = 0
   \<and> take 4 [4, 2, 99, 200, 7, 7] = take 4 [4, 2, 99, 200 :: u8]
   \<and> sc_msg_malformed [4, 2, 99, 200] 4 2
   \<and> sc_cmd_bulk_out example_supercan [4, 2, 99, 200, 7, 7] 4 example_idle_device
       = sc_cmd_bulk_out example_supercan [4, 2, 99, 200] 4 example_idle_device
   \<and> sc_can_bulk_out example_supercan (\<lambda>p. example_hw) [4, 2, 99, 200, 7, 7] 4 example_idle_device
       = sc_can_bulk_out example_supercan (\<lambda>p. example_hw) [4, 2, 99, 200] 4 example_idle_device
   \<and> (\<exists>s'. sc_cmd_bulk_out example_supercan [4, 2, 99, 200] 4 example_idle_device = Some s'
            \<and> effects_extend example_idle_device s')
   \<and> (\<exists>s'. sc_can_bulk_out example_supercan (\<lambda>p. example_hw) [4, 2, 99, 200] 4
              example_idle_device = Some s'
            \<and> effects_extend example_idle_device s')
   \<and> sc_cmd_bulk_out_loop example_supercan [4, 2, 99, 200] 4 2 example_idle_device
       = Some example_idle_device
   \<and> sc_can_bulk_out_loop example_supercan (\<lambda>p. example_hw) [4, 2, 99, 200] 4 2
       example_idle_device = Some example_idle_device"
proof -
  have h1: "cmd_sizes_fit example_supercan"
    by (simp add: cmd_sizes_fit_def example_supercan_def)
  have h2: "can_sizes_fit example_supercan"
    by (simp add: can_sizes_fit_def example_supercan_def)
  have h3: "SC_MSG_EOF example_supercan = 0" by (simp add: example_supercan_def)
  have h4: "take 4 [4, 2, 99, 200, 7, 7] = take 4 [4, 2, 99, 200 :: u8]" by simp
  have h5: "sc_msg_malformed [4, 2, 99, 200] 4 2"
    by (simp add: sc_msg_malformed_def SC_MSG_HEADER_LEN_def)
  note t = sc_bulk_out_parsing [OF h1 h2 h3, of "[4, 2, 99, 200]" 4 example_idle_device
      "\<lambda>p. example_hw" 2 "[4, 2, 99, 200, 7, 7]"]
  show ?thesis using t h1 h2 h3 h4 h5 by blast
qed

end
